theory Spec2Isabelle
  imports Main "HOL-Library.AList" "HOL-Library.Char_ord" "HOL-Library.List_Lexorder"
begin

section \<open>JSON text\<close>

text \<open>
  Progress-log metadata is written to the store with \<open>JSON.stringify\<close> and read back
  with \<open>JSON.parse\<close> (src/db/queries.ts). Both are functions of the platform; they are
  modelled after the ECMAScript specification.

  A value of type \<open>json\<close> is a JavaScript value of the kind metadata can hold: \<open>null\<close>,
  \<open>undefined\<close>, a boolean, a number, a string, an array, or a plain object given as the
  list of its properties in iteration order. A finite number is the decimal
  \<open>m \<times> 10\<^sup>e\<close> that \<open>Number::toString\<close> prints for it, \<open>Finite m e\<close> with \<open>m\<close> not
  divisible by ten (zero is \<open>Finite 0 0\<close>, and negative zero is not told apart from it);
  \<open>canon\<close> brings a decimal into this form. Characters are the 8-bit characters of
  \<open>string\<close>. Dates, maps, big integers and other objects with a serialisation of their own
  are not modelled.
\<close>

datatype number = Finite int int | NaN | Infinity | MinusInfinity

datatype json =
  JNull | JUndefined | JBool bool | JNum number | JStr string | JArr "json list"
  | JObj "(string \<times> json) list"

function canon :: "int \<Rightarrow> int \<Rightarrow> number" where
  "canon m e =
     (if m = 0 then Finite 0 0
      else if m mod 10 = 0 then canon (m div 10) (e + 1)
      else Finite m e)"
  by pat_completeness auto

termination
  by (relation "measure (\<lambda>(m, e). nat \<bar>m\<bar>)") auto

declare canon.simps [simp del]

definition number_of_int :: "int \<Rightarrow> number" where
  "number_of_int i = canon i 0"

subsection \<open>JSON.stringify\<close>

definition digit_char :: "nat \<Rightarrow> char" where
  "digit_char d = ''0123456789'' ! d"

fun nat_str :: "nat \<Rightarrow> string" where
  "nat_str n = (if n < 10 then [digit_char n] else nat_str (n div 10) @ [digit_char (n mod 10)])"

declare nat_str.simps [simp del]

definition int_str :: "int \<Rightarrow> string" where
  "int_str i = (if i < 0 then CHR ''-'' # nat_str (nat (- i)) else nat_str (nat i))"

text \<open>\<open>Number::toString\<close> for a positive number with digits \<open>s\<close> and exponent \<open>e\<close>: with
  \<open>k\<close> the number of digits and \<open>n = k + e\<close>, an integer of at most 21 digits is written
  out, a number with \<open>0 < n \<le> 21\<close> or \<open>-6 < n \<le> 0\<close> gets a decimal point, and every other
  number is written with an exponent.\<close>

definition positive_text :: "nat \<Rightarrow> int \<Rightarrow> string" where
  "positive_text s e =
     (let ds = nat_str s; k = int (length ds); n = k + e
      in if k \<le> n \<and> n \<le> 21 then ds @ replicate (nat e) CHR ''0''
         else if 0 < n \<and> n \<le> 21 then take (nat n) ds @ CHR ''.'' # drop (nat n) ds
         else if - 6 < n \<and> n \<le> 0 then ''0.'' @ replicate (nat (- n)) CHR ''0'' @ ds
         else (if k = 1 then ds else hd ds # CHR ''.'' # tl ds) @
              CHR ''e'' # (if n - 1 < 0 then CHR ''-'' else CHR ''+'') # nat_str (nat \<bar>n - 1\<bar>))"

text \<open>\<open>NaN\<close> and the infinities are serialised as \<open>null\<close>.\<close>

fun number_text :: "number \<Rightarrow> string" where
  "number_text (Finite m e) =
     (if m = 0 then ''0''
      else if m < 0 then CHR ''-'' # positive_text (nat (- m)) e
      else positive_text (nat m) e)"
| "number_text NaN = ''null''"
| "number_text Infinity = ''null''"
| "number_text MinusInfinity = ''null''"

definition hex_char :: "nat \<Rightarrow> char" where
  "hex_char d = ''0123456789abcdef'' ! d"

text \<open>\<open>QuoteJSONString\<close>: the double quote, the backslash and the control characters are
  escaped.\<close>

definition escape_char :: "char \<Rightarrow> string" where
  "escape_char c =
     (if c = CHR 0x22 then [CHR 0x5C, CHR 0x22]
      else if c = CHR 0x5C then [CHR 0x5C, CHR 0x5C]
      else if c = CHR 0x08 then [CHR 0x5C, CHR ''b'']
      else if c = CHR 0x09 then [CHR 0x5C, CHR ''t'']
      else if c = CHR 0x0A then [CHR 0x5C, CHR ''n'']
      else if c = CHR 0x0C then [CHR 0x5C, CHR ''f'']
      else if c = CHR 0x0D then [CHR 0x5C, CHR ''r'']
      else if (of_char c :: nat) < 32
      then [CHR 0x5C, CHR ''u'', CHR ''0'', CHR ''0'',
            hex_char (of_char c div 16), hex_char (of_char c mod 16)]
      else [c])"

definition quote :: "string \<Rightarrow> string" where
  "quote s = CHR 0x22 # concat (map escape_char s) @ [CHR 0x22]"

fun sep_commas :: "string list \<Rightarrow> string" where
  "sep_commas [] = []"
| "sep_commas [x] = x"
| "sep_commas (x # y # r) = x @ CHR '','' # sep_commas (y # r)"

text \<open>The text of a value that is an array element, a property value or the argument itself.
  \<open>undefined\<close> is \<open>null\<close> in an array; a property whose value is \<open>undefined\<close> is left
  out.\<close>

fun serialize :: "json \<Rightarrow> string" where
  "serialize JNull = ''null''"
| "serialize JUndefined = ''null''"
| "serialize (JBool b) = (if b then ''true'' else ''false'')"
| "serialize (JNum n) = number_text n"
| "serialize (JStr s) = quote s"
| "serialize (JArr xs) = CHR ''['' # sep_commas (map serialize xs) @ '']''"
| "serialize (JObj fs) =
     CHR ''{'' # sep_commas (map (\<lambda>(k, v). quote k @ CHR '':'' # serialize v)
                              (filter (\<lambda>(k, v). v \<noteq> JUndefined) fs)) @ ''}''"

text \<open>\<open>JSON.stringify(undefined)\<close> is \<open>undefined\<close>, here \<open>None\<close>.\<close>

definition JSON_stringify :: "json \<Rightarrow> string option" where
  "JSON_stringify v = (if v = JUndefined then None else Some (serialize v))"

subsection \<open>JSON.parse\<close>

text \<open>A recursive-descent parser for the JSON grammar: white space between tokens, the
  string escapes, numbers with fraction and exponent. Its fuel is the length of the
  input; \<open>None\<close> is a \<open>SyntaxError\<close>. A number is read as the decimal written (the platform
  rounds it to the nearest double, which for a text printed by \<open>JSON.stringify\<close> is the
  number printed); an escape \<open>\u\<close> beyond the 8-bit characters has no value here.\<close>

definition is_ws :: "char \<Rightarrow> bool" where
  "is_ws c = (c = CHR '' '' \<or> c = CHR 0x09 \<or> c = CHR 0x0A \<or> c = CHR 0x0D)"

definition skip_ws :: "string \<Rightarrow> string" where
  "skip_ws s = dropWhile is_ws s"

definition is_digit :: "char \<Rightarrow> bool" where
  "is_digit c = (c \<in> set ''0123456789'')"

definition digit_val :: "char \<Rightarrow> nat" where
  "digit_val c = of_char c - 48"

definition digits_nat :: "string \<Rightarrow> nat" where
  "digits_nat ds = foldl (\<lambda>a c. 10 * a + digit_val c) 0 ds"

definition hex_val :: "char \<Rightarrow> nat option" where
  "hex_val c =
     (if is_digit c then Some (of_char c - 48)
      else if c \<in> set ''abcdef'' then Some (of_char c - 87)
      else if c \<in> set ''ABCDEF'' then Some (of_char c - 55)
      else None)"

definition hex4 :: "string \<Rightarrow> char option" where
  "hex4 ds =
     (case map hex_val ds of
        [Some a, Some b, Some c, Some d] \<Rightarrow>
          (let n = ((a * 16 + b) * 16 + c) * 16 + d
           in if n < 256 then Some (char_of n) else None)
      | _ \<Rightarrow> None)"

definition unescape :: "char \<Rightarrow> char option" where
  "unescape e =
     (if e = CHR 0x22 \<or> e = CHR 0x5C \<or> e = CHR ''/'' then Some e
      else if e = CHR ''b'' then Some (CHR 0x08)
      else if e = CHR ''t'' then Some (CHR 0x09)
      else if e = CHR ''n'' then Some (CHR 0x0A)
      else if e = CHR ''f'' then Some (CHR 0x0C)
      else if e = CHR ''r'' then Some (CHR 0x0D)
      else None)"

definition cons_char :: "char \<Rightarrow> (string \<times> string) option \<Rightarrow> (string \<times> string) option" where
  "cons_char c r = (case r of None \<Rightarrow> None | Some (s, rest) \<Rightarrow> Some (c # s, rest))"

text \<open>The characters of a string after its opening quote, up to the closing quote.\<close>

fun parse_string :: "string \<Rightarrow> (string \<times> string) option" where
  "parse_string [] = None"
| "parse_string (c # r) =
     (if c = CHR 0x22 then Some ([], r)
      else if c = CHR 0x5C then
        (case r of
           [] \<Rightarrow> None
         | e # r' \<Rightarrow>
             if e = CHR ''u'' then
               (case hex4 (take 4 r') of
                  None \<Rightarrow> None
                | Some ch \<Rightarrow> cons_char ch (parse_string (drop 4 r')))
             else
               (case unescape e of
                  None \<Rightarrow> None
                | Some ch \<Rightarrow> cons_char ch (parse_string r')))
      else if (of_char c :: nat) < 32 then None
      else cons_char c (parse_string r))"

definition parse_frac :: "string \<Rightarrow> (string \<times> string) option" where
  "parse_frac s =
     (case s of
        [] \<Rightarrow> Some ([], [])
      | c # r \<Rightarrow>
          if c = CHR ''.''
          then (if takeWhile is_digit r = [] then None
                else Some (takeWhile is_digit r, dropWhile is_digit r))
          else Some ([], s))"

definition parse_exp :: "string \<Rightarrow> (int \<times> string) option" where
  "parse_exp s =
     (case s of
        [] \<Rightarrow> Some (0, [])
      | c # r \<Rightarrow>
          if c = CHR ''e'' \<or> c = CHR ''E'' then
            (let neg = (r \<noteq> [] \<and> hd r = CHR ''-'');
                 r1 = (if r \<noteq> [] \<and> (hd r = CHR ''-'' \<or> hd r = CHR ''+'') then tl r else r);
                 ds = takeWhile is_digit r1
             in if ds = [] then None
                else Some (if neg then - int (digits_nat ds) else int (digits_nat ds),
                           dropWhile is_digit r1))
          else Some (0, s))"

definition parse_number :: "string \<Rightarrow> (number \<times> string) option" where
  "parse_number s =
     (let neg = (s \<noteq> [] \<and> hd s = CHR ''-'');
          s1 = (if neg then tl s else s);
          ip = takeWhile is_digit s1
      in if ip = [] \<or> (1 < length ip \<and> hd ip = CHR ''0'') then None
         else
           (case parse_frac (dropWhile is_digit s1) of
              None \<Rightarrow> None
            | Some (fr, s3) \<Rightarrow>
                (case parse_exp s3 of
                   None \<Rightarrow> None
                 | Some (ex, s4) \<Rightarrow>
                     Some (canon (if neg then - int (digits_nat (ip @ fr))
                                  else int (digits_nat (ip @ fr)))
                                 (ex - int (length fr)), s4))))"

text \<open>The properties of the object read: a repeated key keeps its first position and takes
  its last value; the object is iterated with its array indices first, in ascending
  order, and its other keys after them, in the order of their creation. An array index
  is the decimal, without leading zeros, of a number below \<open>2\<^sup>3\<^sup>2 - 1\<close>.\<close>

definition digits_int :: "string \<Rightarrow> int" where
  "digits_int k = fold (\<lambda>c n. 10 * n + int (digit_val c)) k 0"

definition array_index :: "string \<Rightarrow> int option" where
  "array_index k =
     (if k \<noteq> [] \<and> (\<forall>c \<in> set k. is_digit c) \<and> (length k = 1 \<or> hd k \<noteq> CHR ''0'') \<and>
         digits_int k < 4294967295
      then Some (digits_int k) else None)"

definition own_keys_order :: "(string \<times> 'a) list \<Rightarrow> (string \<times> 'a) list" where
  "own_keys_order fs =
     sort_key (\<lambda>p. the (array_index (fst p))) (filter (\<lambda>p. array_index (fst p) \<noteq> None) fs) @
     filter (\<lambda>p. array_index (fst p) = None) fs"

definition object_fields :: "(string \<times> json) list \<Rightarrow> (string \<times> json) list" where
  "object_fields fs = own_keys_order (fold (\<lambda>(k, v) acc. AList.update k v acc) fs [])"

fun parse_value :: "nat \<Rightarrow> string \<Rightarrow> (json \<times> string) option"
  and parse_elems :: "nat \<Rightarrow> string \<Rightarrow> (json list \<times> string) option"
  and parse_fields :: "nat \<Rightarrow> string \<Rightarrow> ((string \<times> json) list \<times> string) option" where
  "parse_value 0 s = None"
| "parse_value (Suc f) s =
     (case skip_ws s of
        [] \<Rightarrow> None
      | c # r \<Rightarrow>
          if c = CHR ''n'' then (if take 3 r = ''ull'' then Some (JNull, drop 3 r) else None)
          else if c = CHR ''t'' then (if take 3 r = ''rue'' then Some (JBool True, drop 3 r) else None)
          else if c = CHR ''f'' then (if take 4 r = ''alse'' then Some (JBool False, drop 4 r) else None)
          else if c = CHR 0x22 then
            (case parse_string r of None \<Rightarrow> None | Some (str, rest) \<Rightarrow> Some (JStr str, rest))
          else if c = CHR ''['' then
            (case skip_ws r of
               [] \<Rightarrow> None
             | d # r' \<Rightarrow>
                 if d = CHR '']'' then Some (JArr [], r')
                 else (case parse_elems f r of None \<Rightarrow> None | Some (xs, rest) \<Rightarrow> Some (JArr xs, rest)))
          else if c = CHR ''{'' then
            (case skip_ws r of
               [] \<Rightarrow> None
             | d # r' \<Rightarrow>
                 if d = CHR ''}'' then Some (JObj [], r')
                 else (case parse_fields f r of
                         None \<Rightarrow> None
                       | Some (fs, rest) \<Rightarrow> Some (JObj (object_fields fs), rest)))
          else (case parse_number (c # r) of None \<Rightarrow> None | Some (n, rest) \<Rightarrow> Some (JNum n, rest)))"
| "parse_elems 0 s = None"
| "parse_elems (Suc f) s =
     (case parse_value f s of
        None \<Rightarrow> None
      | Some (v, r) \<Rightarrow>
          (case skip_ws r of
             [] \<Rightarrow> None
           | d # r' \<Rightarrow>
               if d = CHR '','' then
                 (case parse_elems f r' of None \<Rightarrow> None | Some (vs, rest) \<Rightarrow> Some (v # vs, rest))
               else if d = CHR '']'' then Some ([v], r')
               else None))"
| "parse_fields 0 s = None"
| "parse_fields (Suc f) s =
     (case skip_ws s of
        [] \<Rightarrow> None
      | q # r0 \<Rightarrow>
          if q \<noteq> CHR 0x22 then None
          else (case parse_string r0 of
             None \<Rightarrow> None
           | Some (k, r1) \<Rightarrow>
               (case skip_ws r1 of
                  [] \<Rightarrow> None
                | col # r2 \<Rightarrow>
                    if col \<noteq> CHR '':'' then None
                    else (case parse_value f r2 of
                       None \<Rightarrow> None
                     | Some (v, r) \<Rightarrow>
                         (case skip_ws r of
                            [] \<Rightarrow> None
                          | d # r' \<Rightarrow>
                              if d = CHR '','' then
                                (case parse_fields f r' of
                                   None \<Rightarrow> None
                                 | Some (fs, rest) \<Rightarrow> Some ((k, v) # fs, rest))
                              else if d = CHR ''}'' then Some ([(k, v)], r')
                              else None)))))"

definition JSON_parse :: "string \<Rightarrow> json option" where
  "JSON_parse s =
     (case parse_value (Suc (length s)) s of
        None \<Rightarrow> None
      | Some (v, rest) \<Rightarrow> if skip_ws rest = [] then Some v else None)"

section \<open>The DAG engine (src/services/dag-service.ts)\<close>

text \<open>
  A JavaScript \<open>Map<string, V>\<close> is modelled as an association list in insertion
  order: \<open>m.get(k)\<close> is \<^term>\<open>map_of m k\<close>, \<open>m.set(k, v)\<close> is
  \<^term>\<open>AList.update k v m\<close> (an existing key keeps its position, a new key is
  appended), and iterating the map walks the list. A \<open>Set<string>\<close> of which only
  \<open>has\<close> and \<open>add\<close> are used is a \<^typ>\<open>string set\<close>.
\<close>

type_synonym dep_map = "(string \<times> string list) list"

subsection \<open>canStart\<close>

definition canStart :: "string \<Rightarrow> dep_map \<Rightarrow> string set \<Rightarrow> bool" where
  "canStart taskId dependencies completedTasks =
     (let deps = (case map_of dependencies taskId of None \<Rightarrow> [] | Some ds \<Rightarrow> ds)
      in list_all (\<lambda>dep. dep \<in> completedTasks) deps)"

subsection \<open>getUnlockedTasks\<close>

text \<open>The \<open>for (const [taskId, deps] of allDependencies)\<close> loop, with the
  \<open>unlocked\<close> array as accumulator; each \<open>continue\<close> is a branch that goes on
  with the rest of the entries.\<close>

fun unlocked_loop :: "string \<Rightarrow> string set \<Rightarrow> dep_map \<Rightarrow> string list \<Rightarrow> string list" where
  "unlocked_loop completedTaskId newCompleted [] unlocked = unlocked"
| "unlocked_loop completedTaskId newCompleted ((taskId, deps) # rest) unlocked =
     (if taskId \<in> newCompleted then unlocked_loop completedTaskId newCompleted rest unlocked
      else if completedTaskId \<notin> set deps then unlocked_loop completedTaskId newCompleted rest unlocked
      else if list_all (\<lambda>dep. dep \<in> newCompleted) deps
        then unlocked_loop completedTaskId newCompleted rest (unlocked @ [taskId])
      else unlocked_loop completedTaskId newCompleted rest unlocked)"

definition getUnlockedTasks :: "string \<Rightarrow> dep_map \<Rightarrow> string set \<Rightarrow> string list" where
  "getUnlockedTasks completedTaskId allDependencies completedTasks =
     (let newCompleted = insert completedTaskId completedTasks
      in unlocked_loop completedTaskId newCompleted allDependencies [])"

text \<open>The diamond of the specification: B and C depend on A, D depends on B and C.\<close>

definition diamond :: dep_map where
  "diamond = [(''A'', []), (''B'', [''A'']), (''C'', [''A'']), (''D'', [''B'', ''C''])]"

subsection \<open>validateNoCycles\<close>

text \<open>
  The state of the search is the \<open>color\<close> map and the \<open>parent\<close> map. \<open>init_color\<close> is the
  initialisation loop. The recursive closure \<open>dfs\<close> carries fuel, the recursion depth
  it may use; \<open>dfs_neighbors\<close> is its loop over the neighbours, with the recursive call
  passed as \<open>visit\<close>. The \<open>while\<close> loop that walks the parent links is \<open>reconstruct\<close>; it
  has no result when the walk does not end. \<open>validateNoCycles\<close> runs the search with
  as much fuel as there are nodes. Every result is an \<open>option\<close>, \<open>None\<close> standing for a
  search that does not return.
\<close>

datatype colour = WHITE | GRAY | BLACK

type_synonym colour_map = "(string \<times> colour) list"

record dfs_state =
  color :: colour_map
  parent :: "string \<rightharpoonup> string option"

record validation =
  valid :: bool
  cycle :: "string list option"

fun init_deps :: "string list \<Rightarrow> colour_map \<Rightarrow> colour_map" where
  "init_deps [] col = col"
| "init_deps (dep # deps) col =
     init_deps deps (if map_of col dep = None then AList.update dep WHITE col else col)"

fun init_color :: "dep_map \<Rightarrow> colour_map \<Rightarrow> colour_map" where
  "init_color [] col = col"
| "init_color ((node, deps) # rest) col =
     init_color rest (init_deps deps (AList.update node WHITE col))"

partial_function (option) reconstruct ::
  "(string \<rightharpoonup> string option) \<Rightarrow> string \<Rightarrow> string \<Rightarrow> string list \<Rightarrow> string list option" where
  "reconstruct par neighbor current cyc =
     (case par current of
        None \<Rightarrow> None
      | Some None \<Rightarrow> Some cyc
      | Some (Some p) \<Rightarrow>
          if p = neighbor then Some cyc
          else reconstruct par neighbor p (cyc @ [p]))"

declare reconstruct.simps [code]

fun dfs_neighbors ::
  "(string \<Rightarrow> dfs_state \<Rightarrow> (string list option \<times> dfs_state) option) \<Rightarrow>
   string \<Rightarrow> string list \<Rightarrow> dfs_state \<Rightarrow> (string list option \<times> dfs_state) option" where
  "dfs_neighbors visit node [] st =
     Some (None, st\<lparr>color := AList.update node BLACK (color st)\<rparr>)"
| "dfs_neighbors visit node (neighbor # rest) st =
     (let neighborColor = (case map_of (color st) neighbor of None \<Rightarrow> WHITE | Some c \<Rightarrow> c) in
      if neighborColor = GRAY then
        (case reconstruct (parent st) neighbor node [neighbor, node] of
           None \<Rightarrow> None
         | Some cyc \<Rightarrow> Some (Some (rev cyc), st))
      else if neighborColor = WHITE then
        (case visit neighbor (st\<lparr>parent := (parent st)(neighbor \<mapsto> Some node)\<rparr>) of
           None \<Rightarrow> None
         | Some (Some cyc, st') \<Rightarrow> Some (Some cyc, st')
         | Some (None, st') \<Rightarrow> dfs_neighbors visit node rest st')
      else dfs_neighbors visit node rest st)"

primrec dfs :: "dep_map \<Rightarrow> nat \<Rightarrow> string \<Rightarrow> dfs_state \<Rightarrow> (string list option \<times> dfs_state) option" where
  "dfs dependencies 0 = (\<lambda>node st. None)"
| "dfs dependencies (Suc fuel) = (\<lambda>node st.
     (let st1 = st\<lparr>color := AList.update node GRAY (color st)\<rparr>;
          neighbors = (case map_of dependencies node of None \<Rightarrow> [] | Some ns \<Rightarrow> ns)
      in dfs_neighbors (dfs dependencies fuel) node neighbors st1))"

fun visit_all :: "dep_map \<Rightarrow> nat \<Rightarrow> string list \<Rightarrow> dfs_state \<Rightarrow> validation option" where
  "visit_all dependencies fuel [] st = Some \<lparr>valid = True, cycle = None\<rparr>"
| "visit_all dependencies fuel (node # rest) st =
     (if map_of (color st) node = Some WHITE then
        (case dfs dependencies fuel node (st\<lparr>parent := (parent st)(node \<mapsto> None)\<rparr>) of
           None \<Rightarrow> None
         | Some (Some cyc, st') \<Rightarrow> Some \<lparr>valid = False, cycle = Some cyc\<rparr>
         | Some (None, st') \<Rightarrow> visit_all dependencies fuel rest st')
      else visit_all dependencies fuel rest st)"

definition validate_fuel :: "nat \<Rightarrow> dep_map \<Rightarrow> validation option" where
  "validate_fuel fuel dependencies =
     (let col = init_color dependencies []
      in visit_all dependencies fuel (map fst col) \<lparr>color = col, parent = Map.empty\<rparr>)"

definition validateNoCycles :: "dep_map \<Rightarrow> validation option" where
  "validateNoCycles dependencies =
     validate_fuel (length (init_color dependencies [])) dependencies"

text \<open>
  The edges of a dependency map, and the invariant of the search: the gray nodes are the
  recursion stack \<open>stk\<close>, linked by the parent map along edges; a black node has only
  black successors and lies on no cycle; every target of an edge has a colour.
\<close>

definition dep_edges :: "dep_map \<Rightarrow> (string \<times> string) set" where
  "dep_edges dependencies = {(u, v). \<exists>ns. map_of dependencies u = Some ns \<and> v \<in> set ns}"

definition whites :: "dfs_state \<Rightarrow> string set" where
  "whites st = {x. map_of (color st) x = Some WHITE}"

fun chain :: "(string \<rightharpoonup> string option) \<Rightarrow> (string \<times> string) set \<Rightarrow> string list \<Rightarrow> bool" where
  "chain P E [] = True"
| "chain P E [x] = (P x = Some None)"
| "chain P E (x # y # r) = (P x = Some (Some y) \<and> (y, x) \<in> E \<and> chain P E (y # r))"

definition dfs_inv :: "dep_map \<Rightarrow> dfs_state \<Rightarrow> string list \<Rightarrow> bool" where
  "dfs_inv deps st stk \<longleftrightarrow>
     distinct stk \<and>
     set stk = {x. map_of (color st) x = Some GRAY} \<and>
     chain (parent st) (dep_edges deps) stk \<and>
     (\<forall>b. map_of (color st) b = Some BLACK \<longrightarrow>
        (\<forall>v. (b, v) \<in> dep_edges deps \<longrightarrow> map_of (color st) v = Some BLACK) \<and>
        (b, b) \<notin> (dep_edges deps)\<^sup>+) \<and>
     (\<forall>u v. (u, v) \<in> dep_edges deps \<longrightarrow> map_of (color st) v \<noteq> None)"

definition dfs_post ::
  "dep_map \<Rightarrow> string list \<Rightarrow> string \<Rightarrow> dfs_state \<Rightarrow> (string list option \<times> dfs_state) option \<Rightarrow> bool" where
  "dfs_post deps stk n st r =
     (case r of
        None \<Rightarrow> False
      | Some (None, st') \<Rightarrow>
          dfs_inv deps st' stk \<and>
          map fst (color st') = map fst (color st) \<and>
          map_of (color st') n = Some BLACK \<and>
          (\<forall>x. map_of (color st) x = Some BLACK \<longrightarrow> map_of (color st') x = Some BLACK) \<and>
          whites st' \<subseteq> whites st
      | Some (Some cyc, st') \<Rightarrow> cyc \<noteq> [] \<and> \<not> acyclic (dep_edges deps))"

section \<open>The store (src/types/index.ts, src/db/schema.ts, src/db/queries.ts)\<close>

text \<open>
  The store holds the five tables as lists of rows in insertion order. The queries that insert
  check the primary keys and the foreign keys of the schema (the connection sets
  \<open>foreign_keys = ON\<close>) and return the SQLite error as a value. A result of type
  \<open>(error + 'a) \<times> store\<close> pairs the value returned, or the exception thrown, with the store
  left behind: the service opens no transaction, so a write made before a throw stays.
  The results of \<open>uuidv4()\<close>, of \<open>new Date().toISOString()\<close> and of \<open>datetime('now')\<close> are
  parameters (\<open>uuid\<close>, \<open>now\<close>, \<open>db_now\<close>).
\<close>

datatype task_status = pending | assigned | in_progress | in_review | completed | failed | blocked

datatype task_priority = high | medium | low

datatype ownership_kind = exclusive | shared

datatype progress_event =
  Claimed | Started | ProgressUpdate | Rebased | Completed | Failed | Merged | ConflictDetected

datatype merge_strategy = merge | squash

datatype error = Error string | SqliteError string

record task_group =
  tg_id :: string
  tg_title :: string
  tg_description :: string
  tg_status :: string
  tg_created_at :: string

record task =
  task_id :: string
  group_id :: string
  sequence :: int
  title :: string
  description :: string
  status :: task_status
  priority :: task_priority
  assigned_to :: "string option"
  branch_name :: "string option"
  worktree_path :: "string option"
  progress :: int
  progress_note :: "string option"
  created_at :: string
  started_at :: "string option"
  completed_at :: "string option"
  merged_at :: "string option"

record task_file_ownership =
  fo_task_id :: string
  file_pattern :: string
  ownership_type :: ownership_kind

record log_row =
  row_id :: string
  row_task_id :: string
  row_timestamp :: string
  row_event :: progress_event
  row_message :: string
  row_metadata :: "string option"

record progress_log =
  log_id :: string
  log_task_id :: string
  log_timestamp :: string
  log_event :: progress_event
  log_message :: string
  log_metadata :: json

record log_input =
  li_id :: string
  li_task_id :: string
  li_event :: progress_event
  li_message :: string
  li_metadata :: json

record store =
  task_groups :: "task_group list"
  tasks :: "task list"
  task_dependencies :: "(string \<times> string) list"
  task_file_ownerships :: "task_file_ownership list"
  progress_logs :: "log_row list"

definition empty_store :: store where
  "empty_store = \<lparr>task_groups = [], tasks = [], task_dependencies = [],
     task_file_ownerships = [], progress_logs = []\<rparr>"

text \<open>The argument of \<open>updateTask\<close>: a field that is \<open>None\<close> is absent (\<open>undefined\<close>) and
  keeps its value; \<open>Some v\<close> writes \<open>v\<close>, which for a nullable column may be \<open>None\<close>.\<close>

record task_updates =
  u_status :: "task_status option"
  u_assigned_to :: "string option option"
  u_branch_name :: "string option option"
  u_worktree_path :: "string option option"
  u_progress :: "int option"
  u_progress_note :: "string option option"
  u_started_at :: "string option option"
  u_completed_at :: "string option option"
  u_merged_at :: "string option option"

definition no_updates :: task_updates where
  "no_updates = \<lparr>u_status = None, u_assigned_to = None, u_branch_name = None,
     u_worktree_path = None, u_progress = None, u_progress_note = None,
     u_started_at = None, u_completed_at = None, u_merged_at = None\<rparr>"

definition set_field :: "'a option \<Rightarrow> 'a \<Rightarrow> 'a" where
  "set_field u old = (case u of None \<Rightarrow> old | Some v \<Rightarrow> v)"

definition apply_updates :: "task_updates \<Rightarrow> task \<Rightarrow> task" where
  "apply_updates u t = t\<lparr>
     status := set_field (u_status u) (status t),
     assigned_to := set_field (u_assigned_to u) (assigned_to t),
     branch_name := set_field (u_branch_name u) (branch_name t),
     worktree_path := set_field (u_worktree_path u) (worktree_path t),
     progress := set_field (u_progress u) (progress t),
     progress_note := set_field (u_progress_note u) (progress_note t),
     started_at := set_field (u_started_at u) (started_at t),
     completed_at := set_field (u_completed_at u) (completed_at t),
     merged_at := set_field (u_merged_at u) (merged_at t)\<rparr>"

text \<open>JavaScript truthiness of an optional string and of a JSON value.\<close>

definition js_truthy_str :: "string option \<Rightarrow> bool" where
  "js_truthy_str v = (case v of None \<Rightarrow> False | Some s \<Rightarrow> s \<noteq> [])"

fun js_truthy :: "json \<Rightarrow> bool" where
  "js_truthy JNull = False"
| "js_truthy JUndefined = False"
| "js_truthy (JBool b) = b"
| "js_truthy (JNum n) =
     (case n of Finite m e \<Rightarrow> m \<noteq> 0 | NaN \<Rightarrow> False | Infinity \<Rightarrow> True
      | MinusInfinity \<Rightarrow> True)"
| "js_truthy (JStr s) = (s \<noteq> [])"
| "js_truthy (JArr xs) = True"
| "js_truthy (JObj fs) = True"

subsection \<open>TaskQueries\<close>

definition q_getGroup :: "store \<Rightarrow> string \<Rightarrow> task_group option" where
  "q_getGroup s i = find (\<lambda>g. tg_id g = i) (task_groups s)"

definition q_createGroup :: "store \<Rightarrow> string \<Rightarrow> task_group \<Rightarrow> (error + task_group option) \<times> store" where
  "q_createGroup s db_now g =
     (if q_getGroup s (tg_id g) \<noteq> None
      then (Inl (SqliteError ''UNIQUE constraint failed: task_groups.id''), s)
      else (let s' = s\<lparr>task_groups := task_groups s @ [g\<lparr>tg_created_at := db_now\<rparr>]\<rparr>
            in (Inr (q_getGroup s' (tg_id g)), s')))"

definition q_getTask :: "store \<Rightarrow> string \<Rightarrow> task option" where
  "q_getTask s i = find (\<lambda>t. task_id t = i) (tasks s)"

definition q_createTask :: "store \<Rightarrow> string \<Rightarrow> task \<Rightarrow> (error + task) \<times> store" where
  "q_createTask s db_now t =
     (if q_getTask s (task_id t) \<noteq> None
      then (Inl (SqliteError ''UNIQUE constraint failed: tasks.id''), s)
      else if q_getGroup s (group_id t) = None
      then (Inl (SqliteError ''FOREIGN KEY constraint failed''), s)
      else (let row = t\<lparr>created_at := db_now, started_at := None, completed_at := None,
                          merged_at := None\<rparr>;
                s' = s\<lparr>tasks := tasks s @ [row]\<rparr>
            in (Inr row, s')))"

definition q_getTaskBySequenceAndGroup :: "store \<Rightarrow> string \<Rightarrow> int \<Rightarrow> task option" where
  "q_getTaskBySequenceAndGroup s g n = find (\<lambda>t. group_id t = g \<and> sequence t = n) (tasks s)"

definition q_listTasks :: "store \<Rightarrow> string option \<Rightarrow> task_status list option \<Rightarrow> task list" where
  "q_listTasks s opt_group_id opt_status =
     sort_key sequence
       (filter (\<lambda>t.
          (if js_truthy_str opt_group_id then Some (group_id t) = opt_group_id else True) \<and>
          (case opt_status of
             None \<Rightarrow> True
           | Some sts \<Rightarrow> if sts \<noteq> [] then status t \<in> set sts else True))
        (tasks s))"

definition q_updateTask :: "store \<Rightarrow> string \<Rightarrow> task_updates \<Rightarrow> task option \<times> store" where
  "q_updateTask s i u =
     (if u = no_updates then (q_getTask s i, s)
      else (let s' = s\<lparr>tasks := map (\<lambda>t. if task_id t = i then apply_updates u t else t) (tasks s)\<rparr>
            in (q_getTask s' i, s')))"

definition q_addDependency :: "store \<Rightarrow> string \<Rightarrow> string \<Rightarrow> (error + unit) \<times> store" where
  "q_addDependency s taskId dependsOn =
     (if (taskId, dependsOn) \<in> set (task_dependencies s) then (Inr (), s)
      else if q_getTask s taskId = None \<or> q_getTask s dependsOn = None
      then (Inl (SqliteError ''FOREIGN KEY constraint failed''), s)
      else (Inr (), s\<lparr>task_dependencies := task_dependencies s @ [(taskId, dependsOn)]\<rparr>))"

definition q_getDependencies :: "store \<Rightarrow> string \<Rightarrow> task list" where
  "q_getDependencies s taskId =
     sort_key sequence
       [t. d \<leftarrow> task_dependencies s, fst d = taskId, t \<leftarrow> tasks s, task_id t = snd d]"

definition q_getDependents :: "store \<Rightarrow> string \<Rightarrow> task list" where
  "q_getDependents s taskId =
     sort_key sequence
       [t. d \<leftarrow> task_dependencies s, snd d = taskId, t \<leftarrow> tasks s, task_id t = fst d]"

definition q_addFileOwnership :: "store \<Rightarrow> task_file_ownership \<Rightarrow> (error + unit) \<times> store" where
  "q_addFileOwnership s fo =
     (if q_getTask s (fo_task_id fo) = None
      then (Inl (SqliteError ''FOREIGN KEY constraint failed''), s)
      else (Inr (), s\<lparr>task_file_ownerships :=
              filter (\<lambda>x. \<not> (fo_task_id x = fo_task_id fo \<and> file_pattern x = file_pattern fo))
                (task_file_ownerships s) @ [fo]\<rparr>))"

definition q_getFileOwnership :: "store \<Rightarrow> string \<Rightarrow> task_file_ownership list" where
  "q_getFileOwnership s taskId = filter (\<lambda>x. fo_task_id x = taskId) (task_file_ownerships s)"

definition q_getFileOwnershipConflicts ::
  "store \<Rightarrow> string \<Rightarrow> (task \<times> string \<times> ownership_kind) list" where
  "q_getFileOwnershipConflicts s taskId =
     [(t, file_pattern other_fo, ownership_type other_fo).
        my_fo \<leftarrow> task_file_ownerships s, fo_task_id my_fo = taskId,
        other_fo \<leftarrow> task_file_ownerships s,
        file_pattern my_fo = file_pattern other_fo, fo_task_id other_fo \<noteq> taskId,
        t \<leftarrow> tasks s, task_id t = fo_task_id other_fo, status t = in_progress]"

definition parse_row :: "log_row \<Rightarrow> error + progress_log" where
  "parse_row row =
     (case (if js_truthy_str (row_metadata row)
            then (case JSON_parse (the (row_metadata row)) of
                    None \<Rightarrow> Inl (Error ''SyntaxError: invalid JSON'')
                  | Some j \<Rightarrow> Inr j)
            else Inr JNull) of
        Inl e \<Rightarrow> Inl e
      | Inr m \<Rightarrow> Inr \<lparr>log_id = row_id row, log_task_id = row_task_id row,
                       log_timestamp = row_timestamp row, log_event = row_event row,
                       log_message = row_message row, log_metadata = m\<rparr>)"

fun collect :: "(error + 'a) list \<Rightarrow> error + 'a list" where
  "collect [] = Inr []"
| "collect (x # xs) =
     (case x of
        Inl e \<Rightarrow> Inl e
      | Inr v \<Rightarrow> (case collect xs of Inl e \<Rightarrow> Inl e | Inr vs \<Rightarrow> Inr (v # vs)))"

definition q_getProgressLog :: "store \<Rightarrow> string \<Rightarrow> error + progress_log option" where
  "q_getProgressLog s i =
     (case find (\<lambda>r. row_id r = i) (progress_logs s) of
        None \<Rightarrow> Inr None
      | Some row \<Rightarrow> (case parse_row row of Inl e \<Rightarrow> Inl e | Inr l \<Rightarrow> Inr (Some l)))"

definition q_addProgressLog ::
  "store \<Rightarrow> string \<Rightarrow> log_input \<Rightarrow> (error + progress_log option) \<times> store" where
  "q_addProgressLog s db_now l =
     (if find (\<lambda>r. row_id r = li_id l) (progress_logs s) \<noteq> None
      then (Inl (SqliteError ''UNIQUE constraint failed: progress_logs.id''), s)
      else if q_getTask s (li_task_id l) = None
      then (Inl (SqliteError ''FOREIGN KEY constraint failed''), s)
      else (let row = \<lparr>row_id = li_id l, row_task_id = li_task_id l, row_timestamp = db_now,
                        row_event = li_event l, row_message = li_message l,
                        row_metadata = (if js_truthy (li_metadata l)
                                        then JSON_stringify (li_metadata l) else None)\<rparr>;
                s' = s\<lparr>progress_logs := progress_logs s @ [row]\<rparr>
            in (q_getProgressLog s' (li_id l), s')))"

definition q_getProgressLogs :: "store \<Rightarrow> string \<Rightarrow> error + progress_log list" where
  "q_getProgressLogs s taskId =
     collect (map parse_row
       (sort_key row_timestamp (filter (\<lambda>r. row_task_id r = taskId) (progress_logs s))))"

subsection \<open>ConflictService\<close>

fun strip_dstar :: "string \<Rightarrow> string" where
  "strip_dstar (a # b # c # r) =
     (if a = CHR ''*'' \<and> b = CHR ''*''
      then (if c = CHR ''/'' then strip_dstar r else strip_dstar (c # r))
      else a # strip_dstar (b # c # r))"
| "strip_dstar [a, b] = (if a = CHR ''*'' \<and> b = CHR ''*'' then [] else [a, b])"
| "strip_dstar xs = xs"

definition strip_trailing_slashes :: "string \<Rightarrow> string" where
  "strip_trailing_slashes p = rev (dropWhile (\<lambda>c. c = CHR ''/'') (rev p))"

definition normalize :: "string \<Rightarrow> string" where
  "normalize p = strip_trailing_slashes (filter (\<lambda>c. c \<noteq> CHR ''*'') (strip_dstar p))"

definition startsWith :: "string \<Rightarrow> string \<Rightarrow> bool" where
  "startsWith a b = (take (length b) a = b)"

definition endsWith :: "string \<Rightarrow> string \<Rightarrow> bool" where
  "endsWith a b = (length b \<le> length a \<and> drop (length a - length b) a = b)"

definition patternsOverlap :: "string \<Rightarrow> string \<Rightarrow> bool" where
  "patternsOverlap pattern1 pattern2 =
     (let base1 = normalize pattern1; base2 = normalize pattern2
      in if base1 = [] \<or> base2 = [] then True
         else startsWith base1 base2 \<or> startsWith base2 base1)"

definition findConflicts ::
  "task_file_ownership list \<Rightarrow> (task \<times> task_file_ownership list) list \<Rightarrow>
   (task \<times> string \<times> ownership_kind) list" where
  "findConflicts taskPatterns otherTasks =
     [(fst other, file_pattern otherOwnership, ownership_type otherOwnership).
        myOwnership \<leftarrow> taskPatterns, other \<leftarrow> otherTasks, otherOwnership \<leftarrow> snd other,
        (ownership_type myOwnership = exclusive \<or> ownership_type otherOwnership = exclusive) \<and>
        patternsOverlap (file_pattern myOwnership) (file_pattern otherOwnership)]"

definition pattern_base :: "string \<Rightarrow> string" where
  "pattern_base pattern =
     (let p1 = (if endsWith pattern ''**/'' then take (length pattern - 3) pattern
                else if endsWith pattern ''**'' then take (length pattern - 2) pattern
                else pattern)
      in if endsWith p1 ''*'' then take (length p1 - 1) p1 else p1)"

definition fileMatchesPatterns :: "string \<Rightarrow> string list \<Rightarrow> bool" where
  "fileMatchesPatterns filePath patterns =
     list_ex (\<lambda>pattern.
        let base = pattern_base pattern
        in base = [] \<or> startsWith filePath base \<or> filePath = pattern) patterns"

definition dq :: string where
  "dq = [CHR 0x22]"

definition checkFileConflicts ::
  "string list \<Rightarrow> (task \<times> task_file_ownership list) list \<Rightarrow> string list" where
  "checkFileConflicts changedFiles otherTasks =
     [''File '' @ dq @ file @ dq @ '' conflicts with task #'' @ int_str (sequence (fst other)) @
        '' '' @ dq @ title (fst other) @ dq @ '' which has exclusive ownership''.
        file \<leftarrow> changedFiles, other \<leftarrow> otherTasks,
        fileMatchesPatterns file
          (map file_pattern (filter (\<lambda>p. ownership_type p = exclusive) (snd other)))]"

subsection \<open>GitService\<close>

text \<open>The Git driver is a parameter: a record of the results of its methods. A method that
  may throw returns the message as \<open>Some msg\<close> or \<open>Inl msg\<close>.\<close>

record git_service =
  repoRoot :: string
  createWorktree :: "string \<Rightarrow> string \<Rightarrow> string option"
  removeWorktree :: "string \<Rightarrow> string option"
  deleteBranch :: "string \<Rightarrow> string option"
  getCurrentBranch :: "string + string"
  getLatestCommit :: "string \<Rightarrow> string + string"
  worktreeExists :: "string \<Rightarrow> bool"
  mergeBranch :: "string \<Rightarrow> merge_strategy \<Rightarrow> string + (bool \<times> string list)"
  hasNewCommitsSince :: "string \<Rightarrow> bool"

definition isOnMainBranch :: "git_service \<Rightarrow> string + bool" where
  "isOnMainBranch g =
     (case getCurrentBranch g of
        Inl e \<Rightarrow> Inl e
      | Inr branch \<Rightarrow> Inr (branch = ''main'' \<or> branch = ''master''))"

subsection \<open>TaskService\<close>

fun status_str :: "task_status \<Rightarrow> string" where
  "status_str pending = ''pending''"
| "status_str assigned = ''assigned''"
| "status_str in_progress = ''in_progress''"
| "status_str in_review = ''in_review''"
| "status_str completed = ''completed''"
| "status_str failed = ''failed''"
| "status_str blocked = ''blocked''"

fun strategy_str :: "merge_strategy \<Rightarrow> string" where
  "strategy_str merge = ''merge''"
| "strategy_str squash = ''squash''"

fun join :: "string \<Rightarrow> string list \<Rightarrow> string" where
  "join sep [] = []"
| "join sep [x] = x"
| "join sep (x # y # r) = x @ sep @ join sep (y # r)"

record dep_summary =
  ds_sequence :: int
  ds_title :: string
  ds_status :: task_status

definition dep_summaries :: "task list \<Rightarrow> dep_summary list" where
  "dep_summaries deps =
     map (\<lambda>d. \<lparr>ds_sequence = sequence d, ds_title = title d, ds_status = status d\<rparr>) deps"

text \<open>The loop \<open>for (const t of tasks) dependencyMap.set(t.id, getDependencies(t.id).map(d => d.id))\<close>.\<close>

definition build_dependencyMap :: "store \<Rightarrow> task list \<Rightarrow> dep_map" where
  "build_dependencyMap s ts =
     fold (\<lambda>t m. AList.update (task_id t) (map task_id (q_getDependencies s (task_id t))) m) ts []"

record list_task_output =
  lt_id :: string
  lt_sequence :: int
  lt_title :: string
  lt_status :: task_status
  lt_progress :: int
  lt_progress_note :: "string option"
  lt_assigned_to :: "string option"
  lt_branch_name :: "string option"
  lt_worktree_path :: "string option"
  lt_dependencies :: "dep_summary list"
  lt_can_start :: bool

record list_summary =
  sum_total :: nat
  sum_pending :: nat
  sum_in_progress :: nat
  sum_in_review :: nat
  sum_completed :: nat
  sum_blocked :: nat

definition listTasks ::
  "store \<Rightarrow> string option \<Rightarrow> task_status list option \<Rightarrow> list_task_output list \<times> list_summary" where
  "listTasks s in_group_id in_status =
     (let ts = q_listTasks s in_group_id in_status;
          dependencyMap = build_dependencyMap s ts;
          completedTasks = set (map task_id (filter (\<lambda>t. status t = completed) ts));
          outputTasks = map (\<lambda>t.
             let deps = q_getDependencies s (task_id t);
                 can_start = (status t = pending \<and> canStart (task_id t) dependencyMap completedTasks)
             in \<lparr>lt_id = task_id t, lt_sequence = sequence t, lt_title = title t,
                  lt_status = status t, lt_progress = progress t,
                  lt_progress_note = progress_note t, lt_assigned_to = assigned_to t,
                  lt_branch_name = branch_name t, lt_worktree_path = worktree_path t,
                  lt_dependencies = dep_summaries deps, lt_can_start = can_start\<rparr>) ts;
          summary = \<lparr>sum_total = length ts,
             sum_pending = length (filter (\<lambda>t. status t = pending) ts),
             sum_in_progress = length (filter (\<lambda>t. status t = in_progress) ts),
             sum_in_review = length (filter (\<lambda>t. status t = in_review) ts),
             sum_completed = length (filter (\<lambda>t. status t = completed) ts),
             sum_blocked = length (filter (\<lambda>t. status t = blocked) ts)\<rparr>
      in (outputTasks, summary))"

record get_task_output =
  gt_task :: task
  gt_dependencies :: "dep_summary list"
  gt_file_ownership :: "task_file_ownership list"
  gt_progress_logs :: "progress_log list"

definition getTask :: "store \<Rightarrow> string \<Rightarrow> error + get_task_output" where
  "getTask s in_task_id =
     (case q_getTask s in_task_id of
        None \<Rightarrow> Inl (Error (''Task not found: '' @ in_task_id))
      | Some task \<Rightarrow>
          (let deps = q_getDependencies s (task_id task);
               fileOwnership = q_getFileOwnership s (task_id task)
           in case q_getProgressLogs s (task_id task) of
                Inl e \<Rightarrow> Inl e
              | Inr progressLogs \<Rightarrow>
                  Inr \<lparr>gt_task = task, gt_dependencies = dep_summaries deps,
                       gt_file_ownership = fileOwnership, gt_progress_logs = progressLogs\<rparr>))"

record claim_output =
  c_success :: bool
  c_task :: "task option"
  c_error :: "string option"

definition claimTask ::
  "store \<Rightarrow> string \<Rightarrow> string option \<Rightarrow> string \<Rightarrow> string \<Rightarrow> string \<Rightarrow>
   (error + claim_output) \<times> store" where
  "claimTask s in_task_id in_agent_id uuid_agent uuid_log db_now =
     (case q_getTask s in_task_id of
        None \<Rightarrow>
          (Inr \<lparr>c_success = False, c_task = None,
                c_error = Some (''Task not found: '' @ in_task_id)\<rparr>, s)
      | Some task \<Rightarrow>
          if status task \<noteq> pending then
            (Inr \<lparr>c_success = False, c_task = Some task,
                  c_error = Some (''Task is not pending (current status: '' @
                                  status_str (status task) @ '')'')\<rparr>, s)
          else
            (let deps = q_getDependencies s (task_id task);
                 unmetDeps = filter (\<lambda>d. status d \<noteq> completed) deps
             in if unmetDeps \<noteq> [] then
                  (Inr \<lparr>c_success = False, c_task = Some task,
                        c_error = Some (''Unmet dependencies: '' @
                          join '', '' (map (\<lambda>d. ''#'' @ int_str (sequence d) @ '' '' @ dq @ title d @
                             dq @ '' ('' @ status_str (status d) @ '')'') unmetDeps))\<rparr>, s)
                else
                  (let conflicts = q_getFileOwnershipConflicts s (task_id task)
                   in if conflicts \<noteq> [] then
                        (Inr \<lparr>c_success = False, c_task = Some task,
                              c_error = Some (''File ownership conflicts with in-progress tasks: '' @
                                join '', '' (map (\<lambda>(t, pattern, ty). ''#'' @ int_str (sequence t) @
                                   '' '' @ dq @ title t @ dq @ '' on pattern '' @ dq @ pattern @ dq)
                                   conflicts))\<rparr>, s)
                      else
                        (let agentId = (case in_agent_id of
                                          Some a \<Rightarrow> a
                                        | None \<Rightarrow> ''agent-'' @ take 8 uuid_agent);
                             (updatedTask, s1) = q_updateTask s (task_id task)
                                (no_updates\<lparr>u_status := Some assigned,
                                            u_assigned_to := Some (Some agentId)\<rparr>)
                         in case q_addProgressLog s1 db_now
                                 \<lparr>li_id = uuid_log, li_task_id = task_id task, li_event = Claimed,
                                  li_message = ''Task claimed by '' @ agentId,
                                  li_metadata = JObj [(''agent_id'', JStr agentId)]\<rparr> of
                              (Inl e, s2) \<Rightarrow> (Inl e, s2)
                            | (Inr l, s2) \<Rightarrow>
                                (Inr \<lparr>c_success = True, c_task = updatedTask, c_error = None\<rparr>,
                                 s2)))))"

record start_context =
  sc_description :: string
  sc_file_patterns :: "string list"
  sc_dependencies_completed :: "(string \<times> string) list"

record start_output =
  so_success :: bool
  so_worktree_path :: string
  so_branch_name :: string
  so_task :: "task option"
  so_context :: start_context

definition path_resolve :: "string \<Rightarrow> string \<Rightarrow> string \<Rightarrow> string" where
  "path_resolve root a b = root @ ''/'' @ a @ ''/'' @ b"

definition startTask ::
  "git_service \<Rightarrow> (string \<Rightarrow> string) \<Rightarrow> store \<Rightarrow> string \<Rightarrow> string \<Rightarrow> string \<Rightarrow> string \<Rightarrow>
   (error + start_output) \<times> store" where
  "startTask git slugify s in_task_id now uuid_log db_now =
     (case q_getTask s in_task_id of
        None \<Rightarrow> (Inl (Error (''Task not found: '' @ in_task_id)), s)
      | Some task \<Rightarrow>
          if status task \<noteq> assigned then
            (Inl (Error (''Task must be 'assigned' to start (current status: '' @
                         status_str (status task) @ '')'')), s)
          else
            (let slugifiedTitle = take 30 (slugify (title task));
                 branchName = ''task/task-'' @ int_str (sequence task) @ ''-'' @ slugifiedTitle;
                 worktreePath = path_resolve (repoRoot git) ''.worktrees''
                                  (''task-'' @ int_str (sequence task) @ ''-'' @ slugifiedTitle)
             in case createWorktree git worktreePath branchName of
                  Some msg \<Rightarrow> (Inl (Error msg), s)
                | None \<Rightarrow>
                    (let (updatedTask, s1) = q_updateTask s (task_id task)
                           (no_updates\<lparr>u_status := Some in_progress,
                                       u_branch_name := Some (Some branchName),
                                       u_worktree_path := Some (Some worktreePath),
                                       u_started_at := Some (Some now)\<rparr>)
                     in case q_addProgressLog s1 db_now
                             \<lparr>li_id = uuid_log, li_task_id = task_id task, li_event = Started,
                              li_message = ''Task started with branch '' @ branchName,
                              li_metadata = JObj [(''branch_name'', JStr branchName),
                                                  (''worktree_path'', JStr worktreePath)]\<rparr> of
                          (Inl e, s2) \<Rightarrow> (Inl e, s2)
                        | (Inr l, s2) \<Rightarrow>
                            (let deps = q_getDependencies s2 (task_id task);
                                 fileOwnership = q_getFileOwnership s2 (task_id task)
                             in (Inr \<lparr>so_success = True, so_worktree_path = worktreePath,
                                      so_branch_name = branchName, so_task = updatedTask,
                                      so_context = \<lparr>sc_description = description task,
                                        sc_file_patterns = map file_pattern fileOwnership,
                                        sc_dependencies_completed =
                                          map (\<lambda>d. (title d, case branch_name d of None \<Rightarrow> [] | Some b \<Rightarrow> b))
                                            (filter (\<lambda>d. status d = completed) deps)\<rparr>\<rparr>, s2)))))"

record progress_output =
  po_success :: bool
  po_conflict_warnings :: "string list"
  po_rebase_recommended :: bool

definition updateProgress ::
  "git_service \<Rightarrow> store \<Rightarrow> string \<Rightarrow> int \<Rightarrow> string \<Rightarrow> string list option \<Rightarrow> string \<Rightarrow> string \<Rightarrow>
   (error + progress_output) \<times> store" where
  "updateProgress git s in_task_id in_progress_value in_note in_files_changed uuid_log db_now =
     (case q_getTask s in_task_id of
        None \<Rightarrow> (Inl (Error (''Task not found: '' @ in_task_id)), s)
      | Some task \<Rightarrow>
          (let (u, s1) = q_updateTask s (task_id task)
                 (no_updates\<lparr>u_progress := Some in_progress_value,
                             u_progress_note := Some (Some in_note)\<rparr>);
               conflictWarnings =
                 (case in_files_changed of
                    None \<Rightarrow> []
                  | Some files \<Rightarrow>
                      if files = [] then []
                      else (let allTasks = q_listTasks s1 (Some (group_id task)) (Some [in_progress]);
                                otherTasks = map (\<lambda>t. (t, q_getFileOwnership s1 (task_id t)))
                                               (filter (\<lambda>t. task_id t \<noteq> task_id task) allTasks)
                            in checkFileConflicts files otherTasks));
               rebaseRecommended =
                 (if js_truthy_str (branch_name task) then
                    (case getLatestCommit git ''HEAD'' of
                       Inl e \<Rightarrow> False
                     | Inr mainCommit \<Rightarrow> hasNewCommitsSince git mainCommit)
                  else False)
           in case q_addProgressLog s1 db_now
                   \<lparr>li_id = uuid_log, li_task_id = task_id task, li_event = ProgressUpdate,
                    li_message = in_note,
                    li_metadata = JObj [(''progress'', JNum (number_of_int in_progress_value)),
                      (''files_changed'',
                         JArr (map JStr (case in_files_changed of None \<Rightarrow> [] | Some fs \<Rightarrow> fs))),
                      (''conflict_warnings'', JArr (map JStr conflictWarnings))]\<rparr> of
                (Inl e, s2) \<Rightarrow> (Inl e, s2)
              | (Inr l, s2) \<Rightarrow>
                  (Inr \<lparr>po_success = True, po_conflict_warnings = conflictWarnings,
                        po_rebase_recommended = rebaseRecommended\<rparr>, s2)))"

text \<open>The loop \<open>for (const id of unlockedIds)\<close> that moves unlocked tasks from
  \<open>blocked\<close> to \<open>pending\<close>; \<open>allGroupTasks\<close> is the snapshot read before the loop.\<close>

fun unblock_loop :: "task list \<Rightarrow> string list \<Rightarrow> store \<Rightarrow> store" where
  "unblock_loop allGroupTasks [] s = s"
| "unblock_loop allGroupTasks (i # ids) s =
     (case find (\<lambda>t. task_id t = i) allGroupTasks of
        None \<Rightarrow> unblock_loop allGroupTasks ids s
      | Some t \<Rightarrow>
          if status t = blocked
          then unblock_loop allGroupTasks ids
                 (snd (q_updateTask s i (no_updates\<lparr>u_status := Some pending\<rparr>)))
          else unblock_loop allGroupTasks ids s)"

record complete_output =
  co_success :: bool
  co_task :: "task option"
  co_unlocked_tasks :: "(int \<times> string) list"

definition completeTask ::
  "store \<Rightarrow> string \<Rightarrow> string \<Rightarrow> string list \<Rightarrow> string \<Rightarrow> string \<Rightarrow> string \<Rightarrow>
   (error + complete_output) \<times> store" where
  "completeTask s in_task_id in_summary in_files_changed now uuid_log db_now =
     (case q_getTask s in_task_id of
        None \<Rightarrow> (Inl (Error (''Task not found: '' @ in_task_id)), s)
      | Some task \<Rightarrow>
          if status task \<noteq> in_progress then
            (Inl (Error (''Task must be 'in_progress' to complete (current status: '' @
                         status_str (status task) @ '')'')), s)
          else
            (let (updatedTask, s1) = q_updateTask s (task_id task)
                   (no_updates\<lparr>u_status := Some in_review, u_completed_at := Some (Some now),
                               u_progress := Some 100, u_progress_note := Some (Some in_summary)\<rparr>);
                 allGroupTasks = q_listTasks s1 (Some (group_id task)) None;
                 completedTasks = insert (task_id task)
                   (set (map task_id
                      (filter (\<lambda>t. status t = completed \<or> status t = in_review) allGroupTasks)));
                 dependencyMap = build_dependencyMap s1 allGroupTasks;
                 unlockedIds = getUnlockedTasks (task_id task) dependencyMap completedTasks;
                 unlockedTasks = map (\<lambda>t. (sequence t, title t))
                   (List.map_filter (\<lambda>i. find (\<lambda>t. task_id t = i) allGroupTasks) unlockedIds);
                 s2 = unblock_loop allGroupTasks unlockedIds s1
             in case q_addProgressLog s2 db_now
                     \<lparr>li_id = uuid_log, li_task_id = task_id task, li_event = Completed,
                      li_message = in_summary,
                      li_metadata = JObj [(''files_changed'', JArr (map JStr in_files_changed)),
                        (''unlocked_tasks'',
                           JArr (map (\<lambda>(n, ti). JObj [(''sequence'', JNum (number_of_int n)),
                                     (''title'', JStr ti)])
                                  unlockedTasks))]\<rparr> of
                  (Inl e, s3) \<Rightarrow> (Inl e, s3)
                | (Inr l, s3) \<Rightarrow>
                    (Inr \<lparr>co_success = True, co_task = updatedTask,
                          co_unlocked_tasks = unlockedTasks\<rparr>, s3)))"

record merge_conflict =
  mc_file :: string
  mc_description :: string
  mc_auto_resolvable :: bool
  mc_suggestion :: string

datatype merge_result = clean | auto_resolved | conflict

record merge_output =
  mo_success :: bool
  mo_merge_result :: merge_result
  mo_conflicts :: "merge_conflict list option"
  mo_unlocked_tasks :: "(int \<times> string \<times> bool) list"

definition mergeTask ::
  "git_service \<Rightarrow> store \<Rightarrow> string \<Rightarrow> merge_strategy option \<Rightarrow> string \<Rightarrow> string \<Rightarrow> string \<Rightarrow>
   (error + merge_output) \<times> store" where
  "mergeTask git s in_task_id in_strategy now uuid_log db_now =
     (case isOnMainBranch git of
        Inl e \<Rightarrow> (Inl (Error e), s)
      | Inr onMain \<Rightarrow>
        if \<not> onMain then
          (case getCurrentBranch git of
             Inl e \<Rightarrow> (Inl (Error e), s)
           | Inr b \<Rightarrow>
               (Inl (Error (''Must be on main/master branch to merge. Current branch: '' @ b)), s))
        else
        (case q_getTask s in_task_id of
           None \<Rightarrow> (Inl (Error (''Task not found: '' @ in_task_id)), s)
         | Some task \<Rightarrow>
             if status task \<noteq> in_review then
               (Inl (Error (''Task must be 'in_review' to merge (current status: '' @
                            status_str (status task) @ '')'')), s)
             else if \<not> js_truthy_str (branch_name task) then
               (Inl (Error ''Task has no branch to merge''), s)
             else
               (let strategy = (case in_strategy of None \<Rightarrow> squash | Some st \<Rightarrow> st)
                in case mergeBranch git (the (branch_name task)) strategy of
                     Inl e \<Rightarrow> (Inl (Error e), s)
                   | Inr (ok, conflicts) \<Rightarrow>
                       if ok then
                         (let (u, s1) = q_updateTask s (task_id task)
                                (no_updates\<lparr>u_status := Some completed,
                                            u_merged_at := Some (Some now)\<rparr>);
                              allGroupTasks = q_listTasks s1 (Some (group_id task)) None;
                              completedTasks = set (map task_id
                                (filter (\<lambda>t. status t = completed) allGroupTasks));
                              dependencyMap = build_dependencyMap s1 allGroupTasks;
                              unlockedIds = getUnlockedTasks (task_id task) dependencyMap completedTasks;
                              unlockedTasks = map (\<lambda>t. (sequence t, title t,
                                  canStart (task_id t) dependencyMap completedTasks))
                                (List.map_filter (\<lambda>i. find (\<lambda>t. task_id t = i) allGroupTasks)
                                   unlockedIds);
                              s2 = unblock_loop allGroupTasks unlockedIds s1
                          in case q_addProgressLog s2 db_now
                                  \<lparr>li_id = uuid_log, li_task_id = task_id task, li_event = Merged,
                                   li_message = ''Task merged via '' @ strategy_str strategy @ '' strategy'',
                                   li_metadata = JObj [(''strategy'', JStr (strategy_str strategy)),
                                     (''unlocked_tasks'',
                                        JArr (map (\<lambda>(n, ti, cs). JObj [(''sequence'', JNum (number_of_int n)),
                                                (''title'', JStr ti), (''can_start'', JBool cs)])
                                              unlockedTasks))]\<rparr> of
                               (Inl e, s3) \<Rightarrow> (Inl e, s3)
                             | (Inr l, s3) \<Rightarrow>
                                 (Inr \<lparr>mo_success = True, mo_merge_result = clean,
                                       mo_conflicts = None, mo_unlocked_tasks = unlockedTasks\<rparr>, s3))
                       else
                         (let conflictList = map (\<lambda>file.
                                \<lparr>mc_file = file, mc_description = ''Merge conflict in '' @ file,
                                 mc_auto_resolvable = False,
                                 mc_suggestion = ''Manually resolve conflicts in '' @ file @
                                   '' and commit the result''\<rparr>) conflicts
                          in case q_addProgressLog s db_now
                                  \<lparr>li_id = uuid_log, li_task_id = task_id task,
                                   li_event = ConflictDetected,
                                   li_message = ''Merge conflicts detected in '' @
                                     int_str (int (length conflicts)) @ '' file(s)'',
                                   li_metadata = JObj [(''conflicted_files'', JArr (map JStr conflicts)),
                                     (''strategy'', JStr (strategy_str strategy))]\<rparr> of
                               (Inl e, s3) \<Rightarrow> (Inl e, s3)
                             | (Inr l, s3) \<Rightarrow>
                                 (Inr \<lparr>mo_success = False, mo_merge_result = conflict,
                                       mo_conflicts = Some conflictList,
                                       mo_unlocked_tasks = []\<rparr>, s3)))))"

record cleanup_output =
  cl_success :: bool
  cl_worktree_removed :: bool
  cl_branch_removed :: bool

definition cleanupTask ::
  "git_service \<Rightarrow> store \<Rightarrow> string \<Rightarrow> string option \<Rightarrow> string \<Rightarrow> string \<Rightarrow>
   (error + cleanup_output) \<times> store" where
  "cleanupTask git s in_task_id in_reason uuid_log db_now =
     (case q_getTask s in_task_id of
        None \<Rightarrow> (Inl (Error (''Task not found: '' @ in_task_id)), s)
      | Some task \<Rightarrow>
          (let worktreeRemoved =
                 (js_truthy_str (worktree_path task) \<and>
                  worktreeExists git (the (worktree_path task)) \<and>
                  removeWorktree git (the (worktree_path task)) = None);
               branchRemoved =
                 (js_truthy_str (branch_name task) \<and>
                  deleteBranch git (the (branch_name task)) = None);
               (u, s1) = q_updateTask s (task_id task) (no_updates\<lparr>u_status := Some failed\<rparr>)
           in case q_addProgressLog s1 db_now
                   \<lparr>li_id = uuid_log, li_task_id = task_id task, li_event = Failed,
                    li_message = (case in_reason of
                                    None \<Rightarrow> ''Task cleaned up and marked as failed''
                                  | Some r \<Rightarrow> r),
                    li_metadata = JObj
                      [(''reason'', (case in_reason of None \<Rightarrow> JUndefined | Some r \<Rightarrow> JStr r)),
                       (''worktree_removed'', JBool worktreeRemoved),
                       (''branch_removed'', JBool branchRemoved)]\<rparr> of
                (Inl e, s2) \<Rightarrow> (Inl e, s2)
              | (Inr l, s2) \<Rightarrow>
                  (Inr \<lparr>cl_success = True, cl_worktree_removed = worktreeRemoved,
                        cl_branch_removed = branchRemoved\<rparr>, s2)))"

record file_pattern_input =
  fp_pattern :: string
  fp_ownership_type :: ownership_kind

record task_input =
  ti_title :: string
  ti_description :: string
  ti_priority :: "task_priority option"
  ti_depends_on :: "int list option"
  ti_file_patterns :: "file_pattern_input list option"

record create_input =
  ci_group_title :: string
  ci_group_description :: string
  ci_tasks :: "task_input list"

record created_task =
  ct_id :: string
  ct_sequence :: int
  ct_title :: string
  ct_status :: task_status
  ct_can_start :: bool

record create_output =
  cr_group_id :: string
  cr_tasks :: "created_task list"
  cr_warnings :: "string list"

text \<open>Step 2: the loop creating the tasks; \<open>uuid k\<close> is the result of the \<open>k\<close>-th call of
  \<open>uuidv4()\<close> (call 0 produced the group id).\<close>

fun create_loop ::
  "string \<Rightarrow> (nat \<Rightarrow> string) \<Rightarrow> string \<Rightarrow> task_input list \<Rightarrow> nat \<Rightarrow> (int \<times> string) list \<Rightarrow>
   task list \<Rightarrow> store \<Rightarrow> (error + (int \<times> string) list \<times> task list) \<times> store" where
  "create_loop groupId uuid db_now [] i sequenceToIdMap createdTasks s =
     (Inr (sequenceToIdMap, createdTasks), s)"
| "create_loop groupId uuid db_now (taskInput # rest) i sequenceToIdMap createdTasks s =
     (let sequence_no = int i + 1;
          taskId = uuid (Suc i);
          m = AList.update sequence_no taskId sequenceToIdMap
      in case q_createTask s db_now
              \<lparr>task_id = taskId, group_id = groupId, sequence = sequence_no,
               title = ti_title taskInput, description = ti_description taskInput,
               status = pending,
               priority = (case ti_priority taskInput of None \<Rightarrow> medium | Some p \<Rightarrow> p),
               assigned_to = None, branch_name = None, worktree_path = None, progress = 0,
               progress_note = None, created_at = db_now, started_at = None,
               completed_at = None, merged_at = None\<rparr> of
           (Inl e, s') \<Rightarrow> (Inl e, s')
         | (Inr t, s') \<Rightarrow> create_loop groupId uuid db_now rest (Suc i) m (createdTasks @ [t]) s')"

text \<open>Step 3, inner loop over \<open>depends_on\<close>.\<close>

fun dep_loop ::
  "(int \<times> string) list \<Rightarrow> string \<Rightarrow> int \<Rightarrow> string \<Rightarrow> int list \<Rightarrow> string list \<Rightarrow> string list \<Rightarrow>
   store \<Rightarrow> (error + string list \<times> string list) \<times> store" where
  "dep_loop sequenceToIdMap taskId sequence_no ttitle [] deps warnings s =
     (Inr (deps, warnings), s)"
| "dep_loop sequenceToIdMap taskId sequence_no ttitle (depSequence # rest) deps warnings s =
     (if js_truthy_str (map_of sequenceToIdMap depSequence) then
        (let depId = the (map_of sequenceToIdMap depSequence)
         in case q_addDependency s taskId depId of
              (Inl e, s') \<Rightarrow> (Inl e, s')
            | (Inr u, s') \<Rightarrow>
                dep_loop sequenceToIdMap taskId sequence_no ttitle rest (deps @ [depId]) warnings s')
      else dep_loop sequenceToIdMap taskId sequence_no ttitle rest deps
             (warnings @ [''Task #'' @ int_str sequence_no @ '' '' @ dq @ ttitle @ dq @
                '' references invalid dependency sequence #'' @ int_str depSequence]) s)"

text \<open>Step 3, outer loop over the tasks.\<close>

fun deps_loop ::
  "(int \<times> string) list \<Rightarrow> task_input list \<Rightarrow> nat \<Rightarrow> dep_map \<Rightarrow> string list \<Rightarrow> store \<Rightarrow>
   (error + dep_map \<times> string list) \<times> store" where
  "deps_loop sequenceToIdMap [] i dependencyMap warnings s = (Inr (dependencyMap, warnings), s)"
| "deps_loop sequenceToIdMap (taskInput # rest) i dependencyMap warnings s =
     (let sequence_no = int i + 1;
          taskId = the (map_of sequenceToIdMap sequence_no)
      in case dep_loop sequenceToIdMap taskId sequence_no (ti_title taskInput)
              (case ti_depends_on taskInput of None \<Rightarrow> [] | Some ds \<Rightarrow> ds) [] warnings s of
           (Inl e, s') \<Rightarrow> (Inl e, s')
         | (Inr (deps, warnings'), s') \<Rightarrow>
             deps_loop sequenceToIdMap rest (Suc i) (AList.update taskId deps dependencyMap)
               warnings' s')"

text \<open>Step 4: file ownership.\<close>

fun patterns_loop :: "string \<Rightarrow> file_pattern_input list \<Rightarrow> store \<Rightarrow> (error + unit) \<times> store" where
  "patterns_loop taskId [] s = (Inr (), s)"
| "patterns_loop taskId (fp # rest) s =
     (case q_addFileOwnership s
             \<lparr>fo_task_id = taskId, file_pattern = fp_pattern fp,
              ownership_type = fp_ownership_type fp\<rparr> of
        (Inl e, s') \<Rightarrow> (Inl e, s')
      | (Inr u, s') \<Rightarrow> patterns_loop taskId rest s')"

fun ownership_loop ::
  "(int \<times> string) list \<Rightarrow> task_input list \<Rightarrow> nat \<Rightarrow> store \<Rightarrow> (error + unit) \<times> store" where
  "ownership_loop sequenceToIdMap [] i s = (Inr (), s)"
| "ownership_loop sequenceToIdMap (taskInput # rest) i s =
     (case patterns_loop (the (map_of sequenceToIdMap (int i + 1)))
             (case ti_file_patterns taskInput of None \<Rightarrow> [] | Some fps \<Rightarrow> fps) s of
        (Inl e, s') \<Rightarrow> (Inl e, s')
      | (Inr u, s') \<Rightarrow> ownership_loop sequenceToIdMap rest (Suc i) s')"

text \<open>Step 6: one warning for every overlapping pair of patterns of two different tasks
  where at least one side is exclusive.\<close>

definition overlap_warnings :: "task_input list \<Rightarrow> string list" where
  "overlap_warnings ts =
     [''File pattern overlap: task #'' @ int_str (int (fst pi) + 1) @ '' '' @ dq @
        ti_title (snd pi) @ dq @ '' ('' @ fp_pattern fpI @ '') and task #'' @
        int_str (int (fst pj) + 1) @ '' '' @ dq @ ti_title (snd pj) @ dq @ '' ('' @
        fp_pattern fpJ @ '')''.
        pi \<leftarrow> List.enumerate 0 ts, pj \<leftarrow> List.enumerate 0 ts, fst pi < fst pj,
        fpI \<leftarrow> (case ti_file_patterns (snd pi) of None \<Rightarrow> [] | Some fps \<Rightarrow> fps),
        fpJ \<leftarrow> (case ti_file_patterns (snd pj) of None \<Rightarrow> [] | Some fps \<Rightarrow> fps),
        (fp_ownership_type fpI = exclusive \<or> fp_ownership_type fpJ = exclusive) \<and>
        patternsOverlap (fp_pattern fpI) (fp_pattern fpJ)]"

text \<open>Step 7: initial status and the summaries returned.\<close>

fun status_loop ::
  "(int \<times> string) list \<Rightarrow> dep_map \<Rightarrow> task list \<Rightarrow> nat \<Rightarrow> created_task list \<Rightarrow> store \<Rightarrow>
   created_task list \<times> store" where
  "status_loop sequenceToIdMap dependencyMap [] i outputTasks s = (outputTasks, s)"
| "status_loop sequenceToIdMap dependencyMap (created # rest) i outputTasks s =
     (let sequence_no = int i + 1;
          taskId = the (map_of sequenceToIdMap sequence_no);
          deps = (case map_of dependencyMap taskId of None \<Rightarrow> [] | Some ds \<Rightarrow> ds);
          hasDeps = (deps \<noteq> []);
          s' = (if hasDeps then snd (q_updateTask s taskId (no_updates\<lparr>u_status := Some blocked\<rparr>))
                else s);
          can_start = canStart taskId dependencyMap {}
      in status_loop sequenceToIdMap dependencyMap rest (Suc i)
           (outputTasks @ [\<lparr>ct_id = taskId, ct_sequence = sequence_no, ct_title = title created,
              ct_status = (if hasDeps then blocked else pending), ct_can_start = can_start\<rparr>]) s')"

definition createTasks ::
  "store \<Rightarrow> create_input \<Rightarrow> (nat \<Rightarrow> string) \<Rightarrow> string \<Rightarrow> (error + create_output) \<times> store" where
  "createTasks s input uuid db_now =
     (let groupId = uuid 0
      in case q_createGroup s db_now
              \<lparr>tg_id = groupId, tg_title = ci_group_title input,
               tg_description = ci_group_description input, tg_status = ''active'',
               tg_created_at = db_now\<rparr> of
           (Inl e, s0) \<Rightarrow> (Inl e, s0)
         | (Inr g, s0) \<Rightarrow>
        (case create_loop groupId uuid db_now (ci_tasks input) 0 [] [] s0 of
           (Inl e, s1) \<Rightarrow> (Inl e, s1)
         | (Inr (sequenceToIdMap, createdTasks), s1) \<Rightarrow>
        (case deps_loop sequenceToIdMap (ci_tasks input) 0 [] [] s1 of
           (Inl e, s2) \<Rightarrow> (Inl e, s2)
         | (Inr (dependencyMap, warnings1), s2) \<Rightarrow>
        (case ownership_loop sequenceToIdMap (ci_tasks input) 0 s2 of
           (Inl e, s3) \<Rightarrow> (Inl e, s3)
         | (Inr u, s3) \<Rightarrow>
        (case validateNoCycles dependencyMap of
           None \<Rightarrow> (Inl (Error ''validateNoCycles did not return''), s3)
         | Some validation \<Rightarrow>
        (let warnings2 = (if \<not> valid validation
               then warnings1 @ [''Dependency cycle detected: '' @
                      (case cycle validation of None \<Rightarrow> [] | Some c \<Rightarrow> join '' -> '' c)]
               else warnings1);
             warnings3 = warnings2 @ overlap_warnings (ci_tasks input);
             (outputTasks, s4) = status_loop sequenceToIdMap dependencyMap createdTasks 0 [] s3
         in (Inr \<lparr>cr_group_id = groupId, cr_tasks = outputTasks, cr_warnings = warnings3\<rparr>,
             s4)))))))"

text \<open>A Git driver whose calls all succeed, and a supply of ids.\<close>

definition test_git :: git_service where
  "test_git = \<lparr>repoRoot = ''/repo'', createWorktree = (\<lambda>p b. None), removeWorktree = (\<lambda>p. None),
     deleteBranch = (\<lambda>b. None), getCurrentBranch = Inr ''main'',
     getLatestCommit = (\<lambda>r. Inr ''abc123''), worktreeExists = (\<lambda>p. False),
     mergeBranch = (\<lambda>b st. Inr (True, [])), hasNewCommitsSince = (\<lambda>c. False)\<rparr>"

definition test_uuid :: "nat \<Rightarrow> string" where
  "test_uuid k = ''id'' @ nat_str k"

text \<open>The number of nodes of a value bounds the fuel the parser needs for its text.\<close>

fun json_nodes :: "json \<Rightarrow> nat" where
  "json_nodes JNull = 1"
| "json_nodes JUndefined = 1"
| "json_nodes (JBool b) = 1"
| "json_nodes (JNum n) = 1"
| "json_nodes (JStr s) = 1"
| "json_nodes (JArr xs) = 1 + sum_list (map (\<lambda>x. 1 + json_nodes x) xs)"
| "json_nodes (JObj fs) =
     1 + sum_list (map (\<lambda>p. 1 + json_nodes (snd p)) (filter (\<lambda>(k, v). v \<noteq> JUndefined) fs))"

text \<open>What may follow the text of a value: nothing, or the next delimiter.\<close>

definition value_end :: "string \<Rightarrow> bool" where
  "value_end rest =
     (case rest of [] \<Rightarrow> True | c # _ \<Rightarrow> c = CHR '','' \<or> c = CHR '']'' \<or> c = CHR ''}'')"

text \<open>The value that \<open>JSON.parse\<close> reads from the text of a value: \<open>undefined\<close>, \<open>NaN\<close> and
  the infinities have become \<open>null\<close>, properties with the value \<open>undefined\<close> are gone.\<close>

fun reparsed :: "json \<Rightarrow> json" where
  "reparsed JNull = JNull"
| "reparsed JUndefined = JNull"
| "reparsed (JBool b) = JBool b"
| "reparsed (JNum n) = (case n of Finite m e \<Rightarrow> JNum (canon m e) | _ \<Rightarrow> JNull)"
| "reparsed (JStr s) = JStr s"
| "reparsed (JArr xs) = JArr (map reparsed xs)"
| "reparsed (JObj fs) =
     JObj (object_fields (map (\<lambda>(k, v). (k, reparsed v))
                              (filter (\<lambda>(k, v). v \<noteq> JUndefined) fs)))"

text \<open>The values that JSON represents: no \<open>undefined\<close>, \<open>NaN\<close> or infinity inside, numbers
  in the form \<open>Number::toString\<close> prints, and the properties of an object with distinct
  keys, listed in the order in which the object is iterated.\<close>

fun finite_number :: "number \<Rightarrow> bool" where
  "finite_number (Finite m e) = ((m = 0 \<and> e = 0) \<or> m mod 10 \<noteq> 0)"
| "finite_number NaN = False"
| "finite_number Infinity = False"
| "finite_number MinusInfinity = False"

fun json_value :: "json \<Rightarrow> bool" where
  "json_value JNull = True"
| "json_value JUndefined = False"
| "json_value (JBool b) = True"
| "json_value (JNum n) = finite_number n"
| "json_value (JStr s) = True"
| "json_value (JArr xs) = (\<forall>x \<in> set xs. json_value x)"
| "json_value (JObj fs) =
     (distinct (map fst fs) \<and> own_keys_order fs = fs \<and> (\<forall>p \<in> set fs. json_value (snd p)))"

text \<open>The agent id recorded by \<open>claimTask\<close>.\<close>

definition claim_agent :: "string option \<Rightarrow> string \<Rightarrow> string" where
  "claim_agent in_agent_id uuid_agent =
     (case in_agent_id of Some a \<Rightarrow> a | None \<Rightarrow> ''agent-'' @ take 8 uuid_agent)"

text \<open>Example stores: one group with a completed task a, a pending task b that depends on a,
  and a task c in progress.\<close>

definition example_task :: "string \<Rightarrow> int \<Rightarrow> task_status \<Rightarrow> task" where
  "example_task i n st =
     \<lparr>task_id = i, group_id = ''g1'', sequence = n, title = ''Task '' @ i, description = ''work'',
      status = st, priority = medium, assigned_to = None, branch_name = None,
      worktree_path = None, progress = 0, progress_note = None, created_at = ''2026-01-01'',
      started_at = None, completed_at = None, merged_at = None\<rparr>"

definition example_group :: task_group where
  "example_group = \<lparr>tg_id = ''g1'', tg_title = ''Group'', tg_description = ''Example'',
     tg_status = ''active'', tg_created_at = ''2026-01-01''\<rparr>"

definition claim_example :: store where
  "claim_example =
     \<lparr>task_groups = [example_group],
      tasks = [example_task ''a'' 1 completed, example_task ''b'' 2 pending,
               example_task ''c'' 3 in_progress],
      task_dependencies = [(''b'', ''a'')],
      task_file_ownerships =
        [\<lparr>fo_task_id = ''b'', file_pattern = ''src/db/**'', ownership_type = shared\<rparr>,
         \<lparr>fo_task_id = ''c'', file_pattern = ''src/api/**'', ownership_type = exclusive\<rparr>],
      progress_logs = []\<rparr>"

definition conflict_example :: store where
  "conflict_example =
     \<lparr>task_groups = [example_group],
      tasks = [example_task ''a'' 1 completed, example_task ''b'' 2 pending,
               example_task ''c'' 3 in_progress],
      task_dependencies = [(''b'', ''a'')],
      task_file_ownerships =
        [\<lparr>fo_task_id = ''b'', file_pattern = ''src/db/**'', ownership_type = shared\<rparr>,
         \<lparr>fo_task_id = ''c'', file_pattern = ''src/db/**'', ownership_type = shared\<rparr>],
      progress_logs = []\<rparr>"

definition start_example :: store where
  "start_example =
     \<lparr>task_groups = [example_group],
      tasks = [(example_task ''a'' 1 assigned)\<lparr>assigned_to := Some ''agent-1''\<rparr>],
      task_dependencies = [], task_file_ownerships = [], progress_logs = []\<rparr>"

definition failing_git :: git_service where
  "failing_git = test_git\<lparr>createWorktree := (\<lambda>p b. Some ''Failed to create worktree'')\<rparr>"

text \<open>The effect of \<open>unblock_loop\<close> on a row: the ids it moves to \<open>pending\<close> are the \<open>ids\<close>
  found \<open>blocked\<close> in the snapshot.\<close>

definition unblock_row :: "string set \<Rightarrow> task \<Rightarrow> task" where
  "unblock_row B x = (if task_id x \<in> B then x\<lparr>status := pending\<rparr> else x)"

definition blocked_ids :: "task list \<Rightarrow> string list \<Rightarrow> string set" where
  "blocked_ids allGroupTasks ids =
     {i \<in> set ids. \<exists>y. find (\<lambda>t. task_id t = i) allGroupTasks = Some y \<and> status y = blocked}"

text \<open>Two stores hold the same tasks in the same order, each row related by \<open>R\<close> to its
  successor.\<close>

definition row_rel :: "(task \<Rightarrow> task \<Rightarrow> bool) \<Rightarrow> store \<Rightarrow> store \<Rightarrow> bool" where
  "row_rel R s s' \<longleftrightarrow> list_all2 (\<lambda>x y. task_id y = task_id x \<and> R x y) (tasks s) (tasks s')"

section \<open>Sequences of service operations\<close>

text \<open>A call of one of the nine operations of \<open>TaskService\<close> with its arguments and the
  results of its environment (Git driver, uuids, clock); \<open>run_call\<close> is the store it leaves,
  whether it returns or throws.\<close>

datatype service_call =
    CreateTasks create_input "nat \<Rightarrow> string" string
  | ListTasks "string option" "task_status list option"
  | GetTask string
  | ClaimTask string "string option" string string string
  | StartTask git_service "string \<Rightarrow> string" string string string string
  | UpdateProgress git_service string int string "string list option" string string
  | CompleteTask string string "string list" string string string
  | MergeTask git_service string "merge_strategy option" string string string
  | CleanupTask git_service string "string option" string string

fun run_call :: "service_call \<Rightarrow> store \<Rightarrow> store" where
  "run_call (CreateTasks input uuid db_now) s = snd (createTasks s input uuid db_now)"
| "run_call (ListTasks g sts) s = s"
| "run_call (GetTask i) s = s"
| "run_call (ClaimTask i agent uuid_agent uuid_log db_now) s =
     snd (claimTask s i agent uuid_agent uuid_log db_now)"
| "run_call (StartTask git slugify i now uuid_log db_now) s =
     snd (startTask git slugify s i now uuid_log db_now)"
| "run_call (UpdateProgress git i v n files uuid_log db_now) s =
     snd (updateProgress git s i v n files uuid_log db_now)"
| "run_call (CompleteTask i summary files now uuid_log db_now) s =
     snd (completeTask s i summary files now uuid_log db_now)"
| "run_call (MergeTask git i strategy now uuid_log db_now) s =
     snd (mergeTask git s i strategy now uuid_log db_now)"
| "run_call (CleanupTask git i reason uuid_log db_now) s =
     snd (cleanupTask git s i reason uuid_log db_now)"

fun run_calls :: "service_call list \<Rightarrow> store \<Rightarrow> store" where
  "run_calls [] s = s"
| "run_calls (c # cs) s = run_calls cs (run_call c s)"

text \<open>A run from the empty store: one task is created, claimed, started and completed.\<close>

definition one_task_input :: create_input where
  "one_task_input = \<lparr>ci_group_title = ''G'', ci_group_description = ''one task'',
     ci_tasks = [\<lparr>ti_title = ''T'', ti_description = ''d'', ti_priority = None,
                 ti_depends_on = None, ti_file_patterns = None\<rparr>]\<rparr>"

definition review_calls :: "service_call list" where
  "review_calls =
     [CreateTasks one_task_input test_uuid ''t0'',
      ClaimTask ''id1'' (Some ''agent-1'') ''u1'' ''log1'' ''t1'',
      StartTask test_git id ''id1'' ''t2'' ''log2'' ''t2'',
      CompleteTask ''id1'' ''done'' [] ''t3'' ''log3'' ''t3'']"

definition merged_calls :: "service_call list" where
  "merged_calls = review_calls @ [MergeTask test_git ''id1'' None ''t4'' ''log4'' ''t4'']"

definition progress_after_review_calls :: "service_call list" where
  "progress_after_review_calls =
     review_calls @ [UpdateProgress test_git ''id1'' 50 ''again'' None ''log4'' ''t4'']"

text \<open>The six operations that act on an existing task.\<close>

fun lifecycle_call :: "service_call \<Rightarrow> bool" where
  "lifecycle_call (CreateTasks input uuid db_now) = False"
| "lifecycle_call (ListTasks g sts) = False"
| "lifecycle_call (GetTask i) = False"
| "lifecycle_call c = True"

fun is_cleanup :: "service_call \<Rightarrow> bool" where
  "is_cleanup (CleanupTask git i reason uuid_log db_now) = True"
| "is_cleanup c = False"

text \<open>The status of the task with id \<open>i\<close>, and the invariant on progress.\<close>

definition status_of :: "store \<Rightarrow> string \<Rightarrow> task_status option" where
  "status_of s i = map_option status (q_getTask s i)"

definition inv_row :: "task \<Rightarrow> bool" where
  "inv_row t \<longleftrightarrow> (status t = in_review \<or> status t = completed \<longrightarrow> progress t = 100)"

definition progress_invariant :: "store \<Rightarrow> bool" where
  "progress_invariant s \<longleftrightarrow> (\<forall>t \<in> set (tasks s). inv_row t)"

text \<open>\<open>update_progress\<close> is applied to a task in status \<open>in_review\<close> or \<open>completed\<close> only
  with the value 100.\<close>

fun progress_guard :: "service_call \<Rightarrow> store \<Rightarrow> bool" where
  "progress_guard (UpdateProgress git i v n files uuid_log db_now) s =
     (case q_getTask s i of
        None \<Rightarrow> True
      | Some t \<Rightarrow> v = 100 \<or> (status t \<noteq> in_review \<and> status t \<noteq> completed))"
| "progress_guard c s = True"

fun guarded_calls :: "service_call list \<Rightarrow> store \<Rightarrow> bool" where
  "guarded_calls [] s = True"
| "guarded_calls (c # cs) s = (progress_guard c s \<and> guarded_calls cs (run_call c s))"

text \<open>The inductive invariant: the primary key of \<open>tasks\<close> and the invariant on progress.\<close>

definition good :: "store \<Rightarrow> bool" where
  "good s \<longleftrightarrow> distinct (map task_id (tasks s)) \<and> progress_invariant s"

definition guarded_example_calls :: "service_call list" where
  "guarded_example_calls =
     [CreateTasks one_task_input test_uuid ''t0'',
      ClaimTask ''id1'' (Some ''agent-1'') ''u1'' ''log1'' ''t1'',
      StartTask test_git id ''id1'' ''t2'' ''log2'' ''t2'',
      UpdateProgress test_git ''id1'' 40 ''halfway'' None ''log3'' ''t3'',
      CompleteTask ''id1'' ''done'' [] ''t4'' ''log4'' ''t4'',
      UpdateProgress test_git ''id1'' 100 ''still done'' None ''log5'' ''t5'',
      MergeTask test_git ''id1'' None ''t6'' ''log6'' ''t6'']"

definition abandoned_calls :: "service_call list" where
  "abandoned_calls = merged_calls @ [CleanupTask test_git ''id1'' None ''log5'' ''t5'']"

text \<open>The completed set of the specification of \<open>complete_task\<close>: the ids of the tasks of the
  group of \<open>t\<close> whose status is \<open>completed\<close> or \<open>in_review\<close>, plus \<open>t\<close> itself.\<close>

definition completed_set :: "store \<Rightarrow> task \<Rightarrow> string set" where
  "completed_set s t =
     insert (task_id t)
       (set (map task_id
          (filter (\<lambda>y. group_id y = group_id t \<and> (status y = completed \<or> status y = in_review))
             (tasks s))))"

text \<open>The prerequisites of task \<open>j\<close>: the rows of \<open>task_dependencies\<close> for \<open>j\<close> whose target
  is a task of the store.\<close>

definition prerequisite_ids :: "store \<Rightarrow> string \<Rightarrow> string set" where
  "prerequisite_ids s j =
     set [snd d. d \<leftarrow> task_dependencies s, fst d = j, snd d \<in> set (map task_id (tasks s))]"

text \<open>Task \<open>x\<close> of the group of \<open>t\<close> is unlocked by the completion of \<open>t\<close>: it lists \<open>t\<close> as a
  prerequisite, is not in the completed set, and all its prerequisites are.\<close>

definition unlocked_by_completion :: "store \<Rightarrow> task \<Rightarrow> task \<Rightarrow> bool" where
  "unlocked_by_completion s t x \<longleftrightarrow>
     group_id x = group_id t \<and>
     task_id t \<in> prerequisite_ids s (task_id x) \<and>
     task_id x \<notin> completed_set s t \<and>
     prerequisite_ids s (task_id x) \<subseteq> completed_set s t"

text \<open>Task a is in progress; b depends on a; c depends on a and d; d is pending.\<close>

definition complete_example :: store where
  "complete_example =
     \<lparr>task_groups = [example_group],
      tasks = [example_task ''a'' 1 in_progress, example_task ''b'' 2 blocked,
               example_task ''c'' 3 blocked, example_task ''d'' 4 pending],
      task_dependencies = [(''b'', ''a''), (''c'', ''a''), (''c'', ''d'')],
      task_file_ownerships = [], progress_logs = []\<rparr>"




section \<open>Properties of the DAG engine\<close>

lemma unlocked_loop_filter:
  "unlocked_loop c nc m acc =
     acc @ map fst (filter (\<lambda>(t, ds). t \<notin> nc \<and> c \<in> set ds \<and> set ds \<subseteq> nc) m)"
proof (induction m arbitrary: acc)
  case Nil
  show ?case by simp
next
  case (Cons e m)
  obtain t ds where e: "e = (t, ds)" by (cases e)
  show ?case unfolding e by (simp add: Cons.IH list_all_iff subset_iff)
qed

lemma getUnlockedTasks_filter:
  "getUnlockedTasks c m S =
     map fst (filter (\<lambda>(t, ds). t \<notin> insert c S \<and> c \<in> set ds \<and> set ds \<subseteq> insert c S) m)"
  by (simp add: getUnlockedTasks_def unlocked_loop_filter)

text \<open>
  Claim C6. For every dependency map and completed set, the ids returned by
  \<open>getUnlockedTasks\<close> are exactly the keys of the entries whose prerequisite list
  contains the completed task, that are not in the completed set augmented with the
  completed task, and whose prerequisites all lie in the augmented set. In the diamond,
  completing B does not unlock D as long as C is not in the completed set.
\<close>

theorem getUnlockedTasks_exact:
  "set (getUnlockedTasks c m S) =
     {t. \<exists>ds. (t, ds) \<in> set m \<and> c \<in> set ds \<and> t \<notin> insert c S \<and> set ds \<subseteq> insert c S}
   \<and> (\<forall>S'. ''C'' \<notin> S' \<longrightarrow> ''D'' \<notin> set (getUnlockedTasks ''B'' diamond S'))"
proof
  show "set (getUnlockedTasks c m S) =
     {t. \<exists>ds. (t, ds) \<in> set m \<and> c \<in> set ds \<and> t \<notin> insert c S \<and> set ds \<subseteq> insert c S}"
    unfolding getUnlockedTasks_filter by (auto simp: image_iff)
next
  show "\<forall>S'. ''C'' \<notin> S' \<longrightarrow> ''D'' \<notin> set (getUnlockedTasks ''B'' diamond S')"
    unfolding getUnlockedTasks_def diamond_def Let_def by simp
qed

theorem getUnlockedTasks_exact_witness:
  "''C'' \<notin> {''A''} \<and> ''D'' \<notin> set (getUnlockedTasks ''B'' diamond {''A''})"
proof -
  have h: "''C'' \<notin> {''A''}" by simp
  have a: "\<forall>S'. ''C'' \<notin> S' \<longrightarrow> ''D'' \<notin> set (getUnlockedTasks ''B'' diamond S')"
    by (rule conjunct2 [OF getUnlockedTasks_exact [of "''B''" diamond "{''A''}"]])
  have "''D'' \<notin> set (getUnlockedTasks ''B'' diamond {''A''})"
    by (rule mp [OF spec [OF a] h])
  with h show ?thesis by (rule conjI)
qed

lemma chain_cong: "(\<And>x. x \<in> set stk \<Longrightarrow> P x = Q x) \<Longrightarrow> chain P E stk = chain Q E stk"
  by (induction P E stk rule: chain.induct) auto

lemma chain_tl: "chain P E (x # stk) \<Longrightarrow> chain P E stk"
  by (cases stk) auto

lemma chain_reach: "chain P E (x # stk) \<Longrightarrow> y \<in> set stk \<Longrightarrow> (y, x) \<in> E\<^sup>+"
proof (induction stk arbitrary: x)
  case Nil
  then show ?case by simp
next
  case (Cons z stk)
  from Cons.prems(1) have zx: "(z, x) \<in> E" and ch: "chain P E (z # stk)" by auto
  show ?case
  proof (cases "y = z")
    case True
    with zx show ?thesis by auto
  next
    case False
    with Cons.prems(2) have "y \<in> set stk" by simp
    from Cons.IH [OF ch this] have "(y, z) \<in> E\<^sup>+" .
    with zx show ?thesis by (meson trancl.trancl_into_trancl)
  qed
qed

lemma reconstruct_chain:
  "chain P E (x # stk) \<Longrightarrow> \<exists>c. reconstruct P g x acc = Some c \<and> (acc \<noteq> [] \<longrightarrow> c \<noteq> [])"
proof (induction stk arbitrary: x acc)
  case Nil
  then show ?case by (simp add: reconstruct.simps)
next
  case (Cons z stk)
  from Cons.prems have px: "P x = Some (Some z)" and ch: "chain P E (z # stk)" by auto
  show ?case
  proof (cases "z = g")
    case True
    with px show ?thesis by (simp add: reconstruct.simps)
  next
    case False
    from Cons.IH [OF ch, of "acc @ [z]"] obtain c where
      "reconstruct P g z (acc @ [z]) = Some c" "c \<noteq> []" by auto
    with px False show ?thesis by (subst reconstruct.simps) simp
  qed
qed

lemma whites_finite: "finite (whites st)"
proof -
  have "whites st \<subseteq> dom (map_of (color st))" by (auto simp: whites_def)
  then show ?thesis by (rule finite_subset) (rule finite_dom_map_of)
qed

lemma black_closed_rtrancl:
  "(z, w) \<in> E\<^sup>* \<Longrightarrow>
   (\<forall>b. C b = Some BLACK \<longrightarrow> (\<forall>v. (b, v) \<in> E \<longrightarrow> C v = Some BLACK)) \<Longrightarrow>
   C z = Some BLACK \<Longrightarrow> C w = Some BLACK"
  by (induction rule: rtrancl_induct) auto

lemma finish_inv:
  assumes inv: "dfs_inv deps st (n # stk)"
    and succ: "\<forall>v. (n, v) \<in> dep_edges deps \<longrightarrow> map_of (color st) v = Some BLACK"
  shows "dfs_inv deps (st\<lparr>color := AList.update n BLACK (color st)\<rparr>) stk"
proof -
  let ?E = "dep_edges deps"
  let ?C = "map_of (color st)"
  from inv have d: "distinct (n # stk)"
    and g: "set (n # stk) = {x. ?C x = Some GRAY}"
    and ch: "chain (parent st) ?E (n # stk)"
    and bl: "\<forall>b. ?C b = Some BLACK \<longrightarrow> (\<forall>v. (b, v) \<in> ?E \<longrightarrow> ?C v = Some BLACK) \<and> (b, b) \<notin> ?E\<^sup>+"
    and cl: "\<forall>u v. (u, v) \<in> ?E \<longrightarrow> ?C v \<noteq> None"
    by (auto simp: dfs_inv_def)
  from g have ng: "?C n = Some GRAY" by auto
  have closed: "\<forall>b. ?C b = Some BLACK \<longrightarrow> (\<forall>v. (b, v) \<in> ?E \<longrightarrow> ?C v = Some BLACK)"
    using bl by blast
  have nn: "(n, n) \<notin> ?E\<^sup>+"
  proof
    assume "(n, n) \<in> ?E\<^sup>+"
    then obtain z where nz: "(n, z) \<in> ?E" and zn: "(z, n) \<in> ?E\<^sup>*"
      by (meson tranclD)
    from succ nz have "?C z = Some BLACK" by blast
    from black_closed_rtrancl [OF zn closed this] have "?C n = Some BLACK" .
    with ng show False by simp
  qed
  have g': "set stk = {x. (?C(n \<mapsto> BLACK)) x = Some GRAY}"
  proof -
    from d have "n \<notin> set stk" by simp
    with g show ?thesis by auto
  qed
  have bl': "\<forall>b. (?C(n \<mapsto> BLACK)) b = Some BLACK \<longrightarrow>
      (\<forall>v. (b, v) \<in> ?E \<longrightarrow> (?C(n \<mapsto> BLACK)) v = Some BLACK) \<and> (b, b) \<notin> ?E\<^sup>+"
    using bl succ nn by auto
  from d have "distinct stk" by simp
  moreover from ch have "chain (parent st) ?E stk" by (rule chain_tl)
  moreover have "\<forall>u v. (u, v) \<in> ?E \<longrightarrow> (?C(n \<mapsto> BLACK)) v \<noteq> None"
    using cl by auto
  ultimately show ?thesis
    using g' bl' unfolding dfs_inv_def by (simp add: update_conv')
qed

lemma gray_cycle:
  assumes inv: "dfs_inv deps st (n # stk)"
    and e: "(n, m) \<in> dep_edges deps"
    and mg: "map_of (color st) m = Some GRAY"
  shows "\<not> acyclic (dep_edges deps)"
proof -
  let ?E = "dep_edges deps"
  from inv have g: "set (n # stk) = {x. map_of (color st) x = Some GRAY}"
    and ch: "chain (parent st) ?E (n # stk)"
    by (auto simp: dfs_inv_def)
  from g mg have "m \<in> set (n # stk)" by blast
  then have "(m, m) \<in> ?E\<^sup>+"
  proof (cases "m = n")
    case True
    with e show ?thesis by auto
  next
    case False
    with \<open>m \<in> set (n # stk)\<close> have "m \<in> set stk" by simp
    from chain_reach [OF ch this] have "(m, n) \<in> ?E\<^sup>+" .
    with e show ?thesis by (meson trancl.trancl_into_trancl)
  qed
  then show ?thesis by (auto simp: acyclic_def)
qed

lemma parent_upd_inv:
  assumes inv: "dfs_inv deps st stk" and mw: "map_of (color st) m = Some WHITE"
  shows "dfs_inv deps (st\<lparr>parent := (parent st)(m \<mapsto> p)\<rparr>) stk"
proof -
  from inv have g: "set stk = {x. map_of (color st) x = Some GRAY}"
    by (simp add: dfs_inv_def)
  with mw have "m \<notin> set stk" by auto
  then have "chain ((parent st)(m \<mapsto> p)) (dep_edges deps) stk = chain (parent st) (dep_edges deps) stk"
    by (intro chain_cong) auto
  with inv show ?thesis by (simp add: dfs_inv_def)
qed

lemma start_inv:
  assumes inv: "dfs_inv deps st stk" and nw: "map_of (color st) n = Some WHITE"
    and ch: "chain (parent st) (dep_edges deps) (n # stk)"
  shows "dfs_inv deps (st\<lparr>color := AList.update n GRAY (color st)\<rparr>) (n # stk)"
proof -
  let ?E = "dep_edges deps"
  let ?C = "map_of (color st)"
  from inv have d: "distinct stk"
    and g: "set stk = {x. ?C x = Some GRAY}"
    and bl: "\<forall>b. ?C b = Some BLACK \<longrightarrow> (\<forall>v. (b, v) \<in> ?E \<longrightarrow> ?C v = Some BLACK) \<and> (b, b) \<notin> ?E\<^sup>+"
    and cl: "\<forall>u v. (u, v) \<in> ?E \<longrightarrow> ?C v \<noteq> None"
    by (auto simp: dfs_inv_def)
  from g nw have "n \<notin> set stk" by auto
  with d have d': "distinct (n # stk)" by simp
  have g': "set (n # stk) = {x. (?C(n \<mapsto> GRAY)) x = Some GRAY}"
    using g by auto
  have bl': "\<forall>b. (?C(n \<mapsto> GRAY)) b = Some BLACK \<longrightarrow>
      (\<forall>v. (b, v) \<in> ?E \<longrightarrow> (?C(n \<mapsto> GRAY)) v = Some BLACK) \<and> (b, b) \<notin> ?E\<^sup>+"
  proof (intro allI impI)
    fix b assume "(?C(n \<mapsto> GRAY)) b = Some BLACK"
    then have bn: "b \<noteq> n" and bb: "?C b = Some BLACK" by (auto split: if_splits)
    have "\<forall>v. (b, v) \<in> ?E \<longrightarrow> (?C(n \<mapsto> GRAY)) v = Some BLACK"
    proof (intro allI impI)
      fix v assume "(b, v) \<in> ?E"
      with bl bb have "?C v = Some BLACK" by blast
      with nw have "v \<noteq> n" by auto
      with \<open>?C v = Some BLACK\<close> show "(?C(n \<mapsto> GRAY)) v = Some BLACK" by simp
    qed
    with bl bb show "(\<forall>v. (b, v) \<in> ?E \<longrightarrow> (?C(n \<mapsto> GRAY)) v = Some BLACK) \<and> (b, b) \<notin> ?E\<^sup>+"
      by blast
  qed
  have "\<forall>u v. (u, v) \<in> ?E \<longrightarrow> (?C(n \<mapsto> GRAY)) v \<noteq> None"
    using cl by auto
  with d' g' bl' ch show ?thesis
    unfolding dfs_inv_def by (simp add: update_conv')
qed

lemma keys_update_present:
  "map_of al k = Some v \<Longrightarrow> map fst (AList.update k w al) = map fst al"
  by (simp add: update_keys) (metis domI dom_map_of_conv_image_fst set_map)

lemma dfs_neighbors_post:
  assumes visit: "\<And>m st stk.
      dfs_inv deps st stk \<Longrightarrow> map_of (color st) m = Some WHITE \<Longrightarrow>
      chain (parent st) (dep_edges deps) (m # stk) \<Longrightarrow> card (whites st) \<le> f \<Longrightarrow>
      dfs_post deps stk m st (visit m st)"
  shows "dfs_inv deps st (n # stk) \<Longrightarrow>
     (\<forall>v \<in> set ns. (n, v) \<in> dep_edges deps) \<Longrightarrow>
     (\<forall>v. (n, v) \<in> dep_edges deps \<longrightarrow> v \<notin> set ns \<longrightarrow> map_of (color st) v = Some BLACK) \<Longrightarrow>
     card (whites st) \<le> f \<Longrightarrow>
     dfs_post deps stk n st (dfs_neighbors visit n ns st)"
proof (induction ns arbitrary: st)
  case Nil
  let ?st' = "st\<lparr>color := AList.update n BLACK (color st)\<rparr>"
  from Nil.prems(1) have ng: "map_of (color st) n = Some GRAY"
    by (auto simp: dfs_inv_def)
  from Nil.prems(3) have succ: "\<forall>v. (n, v) \<in> dep_edges deps \<longrightarrow> map_of (color st) v = Some BLACK"
    by simp
  have 1: "dfs_inv deps ?st' stk" by (rule finish_inv [OF Nil.prems(1) succ])
  have 2: "map fst (color ?st') = map fst (color st)"
    using ng by (simp add: keys_update_present)
  have 3: "map_of (color ?st') n = Some BLACK" by (simp add: update_conv')
  have 4: "\<forall>x. map_of (color st) x = Some BLACK \<longrightarrow> map_of (color ?st') x = Some BLACK"
    by (simp add: update_conv')
  have 5: "whites ?st' \<subseteq> whites st"
    by (auto simp: whites_def update_conv' split: if_splits)
  show ?case using 1 2 3 4 5 by (simp add: dfs_post_def)
next
  case (Cons m ns)
  let ?E = "dep_edges deps"
  from Cons.prems(2) have nm: "(n, m) \<in> ?E" and sub: "\<forall>v \<in> set ns. (n, v) \<in> ?E" by auto
  from Cons.prems(1) nm have mdom: "map_of (color st) m \<noteq> None"
    unfolding dfs_inv_def by blast
  then obtain c where mc: "map_of (color st) m = Some c" by auto
  show ?case
  proof (cases c)
    case GRAY
    from Cons.prems(1) have "chain (parent st) ?E (n # stk)" by (simp add: dfs_inv_def)
    from reconstruct_chain [OF this, of m "[m, n]"] obtain cyc where
      r: "reconstruct (parent st) m n [m, n] = Some cyc" and ne: "cyc \<noteq> []" by auto
    have "\<not> acyclic ?E" using gray_cycle [OF Cons.prems(1) nm] mc GRAY by simp
    with r ne mc GRAY show ?thesis by (simp add: dfs_post_def)
  next
    case BLACK
    have "\<forall>v. (n, v) \<in> ?E \<longrightarrow> v \<notin> set ns \<longrightarrow> map_of (color st) v = Some BLACK"
      using Cons.prems(3) mc BLACK by auto
    from Cons.IH [OF Cons.prems(1) sub this Cons.prems(4)]
    show ?thesis using mc BLACK by simp
  next
    case WHITE
    let ?st2 = "st\<lparr>parent := (parent st)(m \<mapsto> Some n)\<rparr>"
    have mw: "map_of (color st) m = Some WHITE" using mc WHITE by simp
    have inv2: "dfs_inv deps ?st2 (n # stk)" by (rule parent_upd_inv [OF Cons.prems(1) mw])
    then have ch2: "chain (parent ?st2) ?E (m # n # stk)"
      using nm by (simp add: dfs_inv_def)
    have w2: "card (whites ?st2) \<le> f" using Cons.prems(4) by (simp add: whites_def)
    have mw2: "map_of (color ?st2) m = Some WHITE" using mw by simp
    from visit [OF inv2 mw2 ch2 w2] have post: "dfs_post deps (n # stk) m ?st2 (visit m ?st2)" .
    then obtain res st' where v: "visit m ?st2 = Some (res, st')"
      by (cases "visit m ?st2") (auto simp: dfs_post_def)
    show ?thesis
    proof (cases res)
      case (Some cyc)
      with post v mw show ?thesis by (simp add: dfs_post_def)
    next
      case None
      with post v have inv': "dfs_inv deps st' (n # stk)"
        and keys: "map fst (color st') = map fst (color st)"
        and mb: "map_of (color st') m = Some BLACK"
        and mono: "\<forall>x. map_of (color st) x = Some BLACK \<longrightarrow> map_of (color st') x = Some BLACK"
        and wsub: "whites st' \<subseteq> whites st"
        by (auto simp: dfs_post_def whites_def)
      have done': "\<forall>v. (n, v) \<in> ?E \<longrightarrow> v \<notin> set ns \<longrightarrow> map_of (color st') v = Some BLACK"
        using Cons.prems(3) mb mono by auto
      have "card (whites st') \<le> card (whites st)"
        by (rule card_mono [OF whites_finite wsub])
      with Cons.prems(4) have w': "card (whites st') \<le> f" by simp
      from Cons.IH [OF inv' sub done' w']
      have p: "dfs_post deps stk n st' (dfs_neighbors visit n ns st')" .
      have eq: "dfs_neighbors visit n (m # ns) st = dfs_neighbors visit n ns st'"
        using mw v None by simp
      show ?thesis unfolding eq using p keys mono wsub
        by (auto simp: dfs_post_def split: option.splits)
    qed
  qed
qed

lemma dfs_correct:
  "dfs_inv deps st stk \<Longrightarrow> map_of (color st) n = Some WHITE \<Longrightarrow>
   chain (parent st) (dep_edges deps) (n # stk) \<Longrightarrow> card (whites st) \<le> f \<Longrightarrow>
   dfs_post deps stk n st (dfs deps f n st)"
proof (induction f arbitrary: st stk n)
  case 0
  from "0.prems"(2) have "n \<in> whites st" by (simp add: whites_def)
  then have "card (whites st) \<noteq> 0" using whites_finite [of st] by auto
  with "0.prems"(4) show ?case by simp
next
  case (Suc f)
  let ?E = "dep_edges deps"
  let ?st1 = "st\<lparr>color := AList.update n GRAY (color st)\<rparr>"
  let ?ns = "case map_of deps n of None \<Rightarrow> [] | Some ns \<Rightarrow> ns"
  have inv1: "dfs_inv deps ?st1 (n # stk)"
    by (rule start_inv [OF Suc.prems(1) Suc.prems(2) Suc.prems(3)])
  have sub: "\<forall>v \<in> set ?ns. (n, v) \<in> ?E"
    by (cases "map_of deps n") (auto simp: dep_edges_def)
  have rest: "\<forall>v. (n, v) \<in> ?E \<longrightarrow> v \<notin> set ?ns \<longrightarrow> map_of (color ?st1) v = Some BLACK"
    by (auto simp: dep_edges_def)
  have nw: "n \<in> whites st" using Suc.prems(2) by (simp add: whites_def)
  have weq: "whites ?st1 = whites st - {n}"
    by (auto simp: whites_def update_conv')
  have "card (whites ?st1) = card (whites st) - 1"
    unfolding weq using nw whites_finite [of st] by simp
  with Suc.prems(4) have w1: "card (whites ?st1) \<le> f" by simp
  have p: "dfs_post deps stk n ?st1 (dfs_neighbors (dfs deps f) n ?ns ?st1)"
    by (rule dfs_neighbors_post [where f = f, OF Suc.IH inv1 sub rest w1])
  have keys: "map fst (color ?st1) = map fst (color st)"
    using Suc.prems(2) by (simp add: keys_update_present)
  have mono: "\<forall>x. map_of (color st) x = Some BLACK \<longrightarrow> map_of (color ?st1) x = Some BLACK"
    using Suc.prems(2) by (auto simp: update_conv')
  have wsub: "whites ?st1 \<subseteq> whites st" unfolding weq by auto
  have eq: "dfs deps (Suc f) n st = dfs_neighbors (dfs deps f) n ?ns ?st1"
    by (simp add: Let_def)
  show ?case unfolding eq using p keys mono wsub
    by (auto simp: dfs_post_def split: option.splits)
qed

lemma init_deps_white:
  "(\<forall>x c. map_of col x = Some c \<longrightarrow> c = WHITE) \<Longrightarrow>
   map_of (init_deps ds col) x = Some c \<Longrightarrow> c = WHITE"
proof (induction ds arbitrary: col)
  case Nil
  then show ?case by simp
next
  case (Cons d ds)
  let ?col = "if map_of col d = None then AList.update d WHITE col else col"
  have "\<forall>x c. map_of ?col x = Some c \<longrightarrow> c = WHITE"
    using Cons.prems(1) by (auto simp: update_conv' split: if_splits)
  from Cons.IH [OF this] Cons.prems(2) show ?case by simp
qed

lemma init_color_white:
  "(\<forall>x c. map_of col x = Some c \<longrightarrow> c = WHITE) \<Longrightarrow>
   map_of (init_color deps col) x = Some c \<Longrightarrow> c = WHITE"
proof (induction deps arbitrary: col)
  case Nil
  then show ?case by simp
next
  case (Cons e deps)
  obtain n ds where e: "e = (n, ds)" by (cases e)
  have a: "\<forall>x c. map_of (AList.update n WHITE col) x = Some c \<longrightarrow> c = WHITE"
    using Cons.prems(1) by (auto simp: update_conv' split: if_splits)
  have "\<forall>x c. map_of (init_deps ds (AList.update n WHITE col)) x = Some c \<longrightarrow> c = WHITE"
    using init_deps_white [OF a] by blast
  from Cons.IH [OF this] Cons.prems(2) show ?case by (simp add: e)
qed

lemma init_deps_dom:
  "dom (map_of (init_deps ds col)) = dom (map_of col) \<union> set ds"
  by (induction ds arbitrary: col) (auto simp: update_conv' split: if_splits)

lemma init_color_dom_mono:
  "dom (map_of col) \<subseteq> dom (map_of (init_color deps col))"
proof (induction deps arbitrary: col)
  case Nil
  show ?case by simp
next
  case (Cons e deps)
  obtain n ds where e: "e = (n, ds)" by (cases e)
  have "dom (map_of col) \<subseteq> dom (map_of (init_deps ds (AList.update n WHITE col)))"
    by (auto simp: init_deps_dom update_conv')
  also have "\<dots> \<subseteq> dom (map_of (init_color deps (init_deps ds (AList.update n WHITE col))))"
    by (rule Cons.IH)
  finally show ?case by (simp add: e)
qed

lemma init_color_dom:
  "(n, ds) \<in> set deps \<Longrightarrow> v \<in> set ds \<Longrightarrow> v \<in> dom (map_of (init_color deps col))"
proof (induction deps arbitrary: col)
  case Nil
  then show ?case by simp
next
  case (Cons e deps)
  obtain n' ds' where e: "e = (n', ds')" by (cases e)
  show ?case
  proof (cases "(n, ds) = (n', ds')")
    case True
    then have "v \<in> dom (map_of (init_deps ds' (AList.update n' WHITE col)))"
      using Cons.prems(2) by (simp add: init_deps_dom)
    then show ?thesis using init_color_dom_mono e by fastforce
  next
    case False
    with Cons.prems(1) e have "(n, ds) \<in> set deps" by auto
    from Cons.IH [OF this Cons.prems(2)] show ?thesis by (simp add: e)
  qed
qed

lemma init_inv: "dfs_inv deps \<lparr>color = init_color deps [], parent = Map.empty\<rparr> []"
proof -
  have w: "\<And>x c. map_of (init_color deps []) x = Some c \<Longrightarrow> c = WHITE"
    by (rule init_color_white [of "[]"]) auto
  have cl: "\<And>u v. (u, v) \<in> dep_edges deps \<Longrightarrow> map_of (init_color deps []) v \<noteq> None"
  proof -
    fix u v assume "(u, v) \<in> dep_edges deps"
    then obtain ns where "map_of deps u = Some ns" "v \<in> set ns" by (auto simp: dep_edges_def)
    then have "(u, ns) \<in> set deps" by (simp add: map_of_SomeD)
    from init_color_dom [OF this \<open>v \<in> set ns\<close>, of "[]"]
    show "map_of (init_color deps []) v \<noteq> None" by auto
  qed
  show ?thesis
    unfolding dfs_inv_def using w cl by fastforce
qed

lemma visit_all_correct:
  "dfs_inv deps st [] \<Longrightarrow> card (whites st) \<le> f \<Longrightarrow>
   set ks \<subseteq> set (map fst (color st)) \<Longrightarrow>
   (\<forall>x. map_of (color st) x \<noteq> None \<longrightarrow> x \<notin> set ks \<longrightarrow> map_of (color st) x = Some BLACK) \<Longrightarrow>
   \<exists>r. visit_all deps f ks st = Some r \<and> (valid r \<longleftrightarrow> acyclic (dep_edges deps)) \<and>
       (\<not> valid r \<longrightarrow> (\<exists>c. cycle r = Some c \<and> c \<noteq> []))"
proof (induction ks arbitrary: st)
  case Nil
  let ?E = "dep_edges deps"
  have "acyclic ?E"
    unfolding acyclic_def
  proof (intro allI notI)
    fix x assume xx: "(x, x) \<in> ?E\<^sup>+"
    then obtain z where "(z, x) \<in> ?E" by (meson tranclE)
    with Nil.prems(1) have "map_of (color st) x \<noteq> None" unfolding dfs_inv_def by blast
    with Nil.prems(4) have "map_of (color st) x = Some BLACK" by simp
    with Nil.prems(1) have "(x, x) \<notin> ?E\<^sup>+" unfolding dfs_inv_def by blast
    with xx show False by simp
  qed
  then show ?case by simp
next
  case (Cons k ks)
  let ?E = "dep_edges deps"
  from Cons.prems(3) have ksub: "set ks \<subseteq> set (map fst (color st))" by simp
  show ?case
  proof (cases "map_of (color st) k = Some WHITE")
    case True
    let ?st2 = "st\<lparr>parent := (parent st)(k \<mapsto> None)\<rparr>"
    have inv2: "dfs_inv deps ?st2 []" by (rule parent_upd_inv [OF Cons.prems(1) True])
    have kw: "map_of (color ?st2) k = Some WHITE" using True by simp
    have ch: "chain (parent ?st2) ?E [k]" by simp
    have w2: "card (whites ?st2) \<le> f" using Cons.prems(2) by (simp add: whites_def)
    from dfs_correct [OF inv2 kw ch w2]
    have post: "dfs_post deps [] k ?st2 (dfs deps f k ?st2)" .
    then obtain res st' where v: "dfs deps f k ?st2 = Some (res, st')"
      by (cases "dfs deps f k ?st2") (auto simp: dfs_post_def)
    show ?thesis
    proof (cases res)
      case (Some cyc)
      with post v True show ?thesis by (simp add: dfs_post_def)
    next
      case None
      with post v have inv': "dfs_inv deps st' []"
        and keys: "map fst (color st') = map fst (color st)"
        and kb: "map_of (color st') k = Some BLACK"
        and mono: "\<forall>x. map_of (color st) x = Some BLACK \<longrightarrow> map_of (color st') x = Some BLACK"
        and wsub: "whites st' \<subseteq> whites st"
        by (auto simp: dfs_post_def whites_def)
      have "card (whites st') \<le> card (whites st)"
        by (rule card_mono [OF whites_finite wsub])
      with Cons.prems(2) have w': "card (whites st') \<le> f" by simp
      have ksub': "set ks \<subseteq> set (map fst (color st'))" using ksub keys by simp
      have domeq: "\<And>x. map_of (color st') x \<noteq> None \<longleftrightarrow> map_of (color st) x \<noteq> None"
      proof -
        fix x
        have "dom (map_of (color st')) = dom (map_of (color st))"
          using keys by (metis dom_map_of_conv_image_fst set_map)
        then show "map_of (color st') x \<noteq> None \<longleftrightarrow> map_of (color st) x \<noteq> None"
          by (metis domIff)
      qed
      have done': "\<forall>x. map_of (color st') x \<noteq> None \<longrightarrow> x \<notin> set ks \<longrightarrow>
          map_of (color st') x = Some BLACK"
      proof (intro allI impI)
        fix x assume a: "map_of (color st') x \<noteq> None" "x \<notin> set ks"
        show "map_of (color st') x = Some BLACK"
        proof (cases "x = k")
          case True
          with kb show ?thesis by simp
        next
          case False
          with a domeq [of x] Cons.prems(4) have "map_of (color st) x = Some BLACK" by simp
          with mono show ?thesis by blast
        qed
      qed
      from Cons.IH [OF inv' w' ksub' done'] show ?thesis using True v None by simp
    qed
  next
    case False
    from Cons.prems(3) have "k \<in> set (map fst (color st))" by simp
    then have kd: "map_of (color st) k \<noteq> None"
      by (metis domIff dom_map_of_conv_image_fst set_map)
    from Cons.prems(1) have "map_of (color st) k \<noteq> Some GRAY"
      unfolding dfs_inv_def by auto
    with kd False have kb: "map_of (color st) k = Some BLACK"
      by (cases "map_of (color st) k") (auto intro: colour.exhaust)
    have done': "\<forall>x. map_of (color st) x \<noteq> None \<longrightarrow> x \<notin> set ks \<longrightarrow>
          map_of (color st) x = Some BLACK"
      using Cons.prems(4) kb by auto
    from Cons.IH [OF Cons.prems(1) Cons.prems(2) ksub done'] show ?thesis using False by simp
  qed
qed

lemma validate_fuel_correct:
  assumes "length (init_color deps []) \<le> f"
  shows "\<exists>r. validate_fuel f deps = Some r \<and> (valid r \<longleftrightarrow> acyclic (dep_edges deps)) \<and>
       (\<not> valid r \<longrightarrow> (\<exists>c. cycle r = Some c \<and> c \<noteq> []))"
proof -
  let ?st = "\<lparr>color = init_color deps [], parent = Map.empty\<rparr>"
  have "whites ?st \<subseteq> set (map fst (init_color deps []))"
    by (auto simp: whites_def dest: map_of_SomeD intro: rev_image_eqI)
  then have "card (whites ?st) \<le> card (set (map fst (init_color deps [])))"
    by (intro card_mono) auto
  also have "\<dots> \<le> length (init_color deps [])"
    by (metis card_length length_map)
  finally have w: "card (whites ?st) \<le> f" using assms by simp
  have ks: "set (map fst (init_color deps [])) \<subseteq> set (map fst (color ?st))" by simp
  have d: "\<forall>x. map_of (color ?st) x \<noteq> None \<longrightarrow> x \<notin> set (map fst (init_color deps [])) \<longrightarrow>
      map_of (color ?st) x = Some BLACK"
    by (metis domIff dom_map_of_conv_image_fst set_map dfs_state.select_convs(1))
  from visit_all_correct [OF init_inv w ks d] show ?thesis
    by (simp add: validate_fuel_def Let_def)
qed

lemma self_loop: "validateNoCycles [(a, [a])] = Some \<lparr>valid = False, cycle = Some [a, a]\<rparr>"
  by (simp add: validateNoCycles_def validate_fuel_def reconstruct.simps)

lemma dfs_neighbors_mono:
  assumes "\<And>m st r. v1 m st = Some r \<Longrightarrow> v2 m st = Some r"
  shows "dfs_neighbors v1 n ns st = Some r \<Longrightarrow> dfs_neighbors v2 n ns st = Some r"
proof (induction ns arbitrary: st)
  case Nil
  then show ?case by simp
next
  case (Cons m ns)
  let ?c = "case map_of (color st) m of None \<Rightarrow> WHITE | Some c \<Rightarrow> c"
  let ?st2 = "st\<lparr>parent := (parent st)(m \<mapsto> Some n)\<rparr>"
  show ?case
  proof (cases "?c = WHITE")
    case False
    with Cons show ?thesis by (cases "?c = GRAY") (simp_all add: Let_def)
  next
    case True
    with Cons.prems obtain res st' where v: "v1 m ?st2 = Some (res, st')"
      by (cases "v1 m ?st2") (auto simp: Let_def)
    from assms [OF v] have v': "v2 m ?st2 = Some (res, st')" .
    show ?thesis
    proof (cases res)
      case None
      with Cons.prems True v have "dfs_neighbors v1 n ns st' = Some r" by (simp add: Let_def)
      from Cons.IH [OF this] show ?thesis using True v' None by (simp add: Let_def)
    next
      case (Some cyc)
      with Cons.prems True v v' show ?thesis by (auto simp: Let_def)
    qed
  qed
qed

lemma dfs_fuel_Suc: "dfs deps f n st = Some r \<Longrightarrow> dfs deps (Suc f) n st = Some r"
proof (induction f arbitrary: n st r)
  case 0
  then show ?case by simp
next
  case (Suc f)
  let ?st1 = "st\<lparr>color := AList.update n GRAY (color st)\<rparr>"
  let ?ns = "case map_of deps n of None \<Rightarrow> [] | Some ns \<Rightarrow> ns"
  from Suc.prems have "dfs_neighbors (dfs deps f) n ?ns ?st1 = Some r" by (simp add: Let_def)
  then have "dfs_neighbors (dfs deps (Suc f)) n ?ns ?st1 = Some r"
    by (rule dfs_neighbors_mono [rotated]) (rule Suc.IH)
  then show ?case by (simp add: Let_def)
qed

lemma dfs_fuel_mono:
  assumes "f \<le> f'" and "dfs deps f n st = Some r"
  shows "dfs deps f' n st = Some r"
  using assms(1)
proof (induction f' rule: dec_induct)
  case base
  show ?case by (rule assms(2))
next
  case (step k)
  then show ?case by (intro dfs_fuel_Suc)
qed

lemma visit_all_mono:
  "f \<le> f' \<Longrightarrow> visit_all deps f ks st = Some r \<Longrightarrow> visit_all deps f' ks st = Some r"
proof (induction ks arbitrary: st)
  case Nil
  then show ?case by simp
next
  case (Cons k ks)
  let ?st2 = "st\<lparr>parent := (parent st)(k \<mapsto> None)\<rparr>"
  show ?case
  proof (cases "map_of (color st) k = Some WHITE")
    case False
    with Cons show ?thesis by simp
  next
    case True
    with Cons.prems(2) obtain res st' where v: "dfs deps f k ?st2 = Some (res, st')"
      by (cases "dfs deps f k ?st2") auto
    from dfs_fuel_mono [OF Cons.prems(1) v] have v': "dfs deps f' k ?st2 = Some (res, st')" .
    show ?thesis
    proof (cases res)
      case None
      with Cons.prems(2) True v have "visit_all deps f ks st' = Some r" by simp
      from Cons.IH [OF Cons.prems(1) this] show ?thesis using True v' None by simp
    next
      case (Some cyc)
      with Cons.prems(2) True v v' show ?thesis by simp
    qed
  qed
qed

lemma validate_fuel_stable:
  assumes "length (init_color deps []) \<le> f"
  shows "validate_fuel f deps = validateNoCycles deps"
proof -
  from validate_fuel_correct [OF order_refl, of deps] obtain r where
    r: "validate_fuel (length (init_color deps [])) deps = Some r" by blast
  then have "validate_fuel f deps = Some r"
    unfolding validate_fuel_def Let_def by (rule visit_all_mono [OF assms])
  with r show ?thesis by (simp add: validateNoCycles_def)
qed

text \<open>
  For every dependency map, \<open>validateNoCycles\<close> returns (the recursion depth never
  exceeds the number of nodes, and the reconstruction loop ends): the result is
  \<open>valid = true\<close> when the graph of the map is acyclic, and \<open>valid = false\<close> with a
  non-empty list when it has a cycle. For the one-entry map \<open>A \<rightarrow> A\<close> the list
  contains \<open>A\<close>.
\<close>

lemma validateNoCycles_valid_iff_acyclic:
  "(\<exists>r. validateNoCycles deps = Some r \<and>
        (acyclic (dep_edges deps) \<longrightarrow> valid r) \<and>
        (\<not> acyclic (dep_edges deps) \<longrightarrow> \<not> valid r \<and> (\<exists>c. cycle r = Some c \<and> c \<noteq> [])))
   \<and> (\<exists>c. validateNoCycles [(a, [a])] = Some \<lparr>valid = False, cycle = Some c\<rparr> \<and> a \<in> set c)"
proof
  from validate_fuel_correct [OF order_refl, of deps]
  show "\<exists>r. validateNoCycles deps = Some r \<and>
        (acyclic (dep_edges deps) \<longrightarrow> valid r) \<and>
        (\<not> acyclic (dep_edges deps) \<longrightarrow> \<not> valid r \<and> (\<exists>c. cycle r = Some c \<and> c \<noteq> []))"
    unfolding validateNoCycles_def by blast
next
  show "\<exists>c. validateNoCycles [(a, [a])] = Some \<lparr>valid = False, cycle = Some c\<rparr> \<and> a \<in> set c"
    by (simp add: self_loop)
qed

lemma validateNoCycles_examples:
  "validateNoCycles [(''A'', [''B'']), (''B'', [''C''])] = Some \<lparr>valid = True, cycle = None\<rparr>"
  "validateNoCycles [(''A'', [''B'']), (''B'', [''A''])] =
     Some \<lparr>valid = False, cycle = Some [''B'', ''A'']\<rparr>"
  "validateNoCycles [(''A'', [''B'']), (''B'', [''C'']), (''C'', [''D'']), (''D'', [''B''])] =
     Some \<lparr>valid = False, cycle = Some [''C'', ''D'', ''B'']\<rparr>"
  by (simp_all add: validateNoCycles_def validate_fuel_def reconstruct.simps)

lemma self_loop_below_root_edges:
  "dep_edges [(''X'', [''A'']), (''A'', [''A''])] = {(''X'', ''A''), (''A'', ''A'')}"
  by (auto simp: dep_edges_def split: if_splits)

text \<open>
  Claim C5. \<open>validateNoCycles\<close> is to return, for a map whose graph has a cycle,
  \<open>valid = false\<close> with a cycle path. For the map \<open>X \<rightarrow> A\<close>, \<open>A \<rightarrow> A\<close> it returns the
  list \<open>[X, A, A]\<close>, although the only cycle of the graph is the self-loop of \<open>A\<close> and
  \<open>X\<close> lies on no cycle. The loop that walks the parent links stops at the node whose
  parent is the gray neighbour; when the back edge is a self-loop, the node is the
  neighbour itself, the test is made on its parent, and the walk goes on to the root of
  the search.
\<close>

theorem validateNoCycles_self_loop_path:
  "validateNoCycles [(''X'', [''A'']), (''A'', [''A''])] =
     Some \<lparr>valid = False, cycle = Some [''X'', ''A'', ''A'']\<rparr> \<and>
   \<not> acyclic (dep_edges [(''X'', [''A'']), (''A'', [''A''])]) \<and>
   (''X'', ''X'') \<notin> (dep_edges [(''X'', [''A'']), (''A'', [''A''])])\<^sup>+"
proof (intro conjI)
  show "validateNoCycles [(''X'', [''A'']), (''A'', [''A''])] =
     Some \<lparr>valid = False, cycle = Some [''X'', ''A'', ''A'']\<rparr>"
    by (simp add: validateNoCycles_def validate_fuel_def reconstruct.simps)
  have "(''A'', ''A'') \<in> (dep_edges [(''X'', [''A'']), (''A'', [''A''])])\<^sup>+"
    unfolding self_loop_below_root_edges by (rule r_into_trancl) simp
  then show "\<not> acyclic (dep_edges [(''X'', [''A'']), (''A'', [''A''])])"
    by (auto simp: acyclic_def)
  show "(''X'', ''X'') \<notin> (dep_edges [(''X'', [''A'']), (''A'', [''A''])])\<^sup>+"
  proof
    assume "(''X'', ''X'') \<in> (dep_edges [(''X'', [''A'']), (''A'', [''A''])])\<^sup>+"
    then have "''X'' \<in> Range ((dep_edges [(''X'', [''A'']), (''A'', [''A''])])\<^sup>+)"
      by (rule RangeI)
    then show False unfolding trancl_range self_loop_below_root_edges by simp
  qed
qed

section \<open>Properties of the JSON codec\<close>

subsection \<open>Digits\<close>

lemma digit_cases:
  assumes "d < (10::nat)"
  shows "d = 0 \<or> d = 1 \<or> d = 2 \<or> d = 3 \<or> d = 4 \<or> d = 5 \<or> d = 6 \<or> d = 7 \<or> d = 8 \<or> d = 9"
  using assms by arith

lemma digit_char_props:
  assumes "d < 10"
  shows "is_digit (digit_char d)" and "digit_val (digit_char d) = d"
    and "d \<noteq> 0 \<Longrightarrow> digit_char d \<noteq> CHR ''0''"
  using digit_cases [OF assms]
  by (auto simp: digit_char_def is_digit_def digit_val_def)

lemma is_digit_not_special:
  "is_digit c \<Longrightarrow> c \<noteq> CHR ''n'' \<and> c \<noteq> CHR ''t'' \<and> c \<noteq> CHR ''f'' \<and> c \<noteq> CHR 0x22 \<and>
     c \<noteq> CHR ''['' \<and> c \<noteq> CHR ''{'' \<and> c \<noteq> CHR ''-'' \<and> c \<noteq> CHR '']'' \<and> c \<noteq> CHR ''}'' \<and>
     c \<noteq> CHR ''.'' \<and> c \<noteq> CHR ''e'' \<and> c \<noteq> CHR ''E'' \<and> c \<noteq> CHR '','' \<and> c \<noteq> CHR ''+'' \<and>
     \<not> is_ws c"
  by (auto simp: is_digit_def is_ws_def)

lemma nat_str_digits: "c \<in> set (nat_str n) \<Longrightarrow> is_digit c"
proof (induction n rule: nat_str.induct)
  case (1 n)
  show ?case
  proof (cases "n < 10")
    case True
    with "1.prems" show ?thesis by (simp add: nat_str.simps [of n] digit_char_props)
  next
    case False
    then have "n mod 10 < 10" by simp
    with "1.prems" "1.IH" False show ?thesis
      by (auto simp: nat_str.simps [of n] digit_char_props)
  qed
qed

lemma nat_str_nonempty: "nat_str n \<noteq> []"
  by (subst nat_str.simps) simp

lemma nat_str_hd_digit: "is_digit (hd (nat_str n))"
  using nat_str_digits [of "hd (nat_str n)" n] nat_str_nonempty [of n] by simp

lemma nat_str_value: "digits_nat (nat_str n) = n"
proof (induction n rule: nat_str.induct)
  case (1 n)
  show ?case
  proof (cases "n < 10")
    case True
    then show ?thesis by (simp add: nat_str.simps [of n] digit_char_props digits_nat_def)
  next
    case False
    then have "n mod 10 < 10" by simp
    with "1.IH" False show ?thesis
      by (simp add: nat_str.simps [of n] digit_char_props digits_nat_def)
  qed
qed

lemma nat_str_hd_nonzero: "0 < n \<Longrightarrow> hd (nat_str n) \<noteq> CHR ''0''"
proof (induction n rule: nat_str.induct)
  case (1 n)
  show ?case
  proof (cases "n < 10")
    case True
    with "1.prems" show ?thesis by (simp add: nat_str.simps [of n] digit_char_props)
  next
    case False
    then have "0 < n div 10" by simp
    with "1.IH" False have "hd (nat_str (n div 10)) \<noteq> CHR ''0''" by simp
    with False show ?thesis
      by (simp add: nat_str.simps [of n] nat_str_nonempty)
  qed
qed

lemma digits_nat_snoc: "digits_nat (ds @ [c]) = 10 * digits_nat ds + digit_val c"
  by (simp add: digits_nat_def)

lemma digits_nat_append:
  "digits_nat (xs @ ys) = digits_nat xs * 10 ^ length ys + digits_nat ys"
proof (induction ys rule: rev_induct)
  case Nil
  show ?case by (simp add: digits_nat_def)
next
  case (snoc y ys)
  have "digits_nat (xs @ ys @ [y]) = 10 * digits_nat (xs @ ys) + digit_val y"
    using digits_nat_snoc [of "xs @ ys" y] by simp
  also have "\<dots> = 10 * (digits_nat xs * 10 ^ length ys + digits_nat ys) + digit_val y"
    by (simp add: snoc.IH)
  also have "\<dots> = digits_nat xs * 10 ^ length (ys @ [y]) + digits_nat (ys @ [y])"
    by (simp add: digits_nat_snoc algebra_simps)
  finally show ?case .
qed

lemma digits_nat_zeros: "digits_nat (replicate z CHR ''0'') = 0"
proof (induction z)
  case 0
  show ?case by (simp add: digits_nat_def)
next
  case (Suc z)
  have "replicate (Suc z) CHR ''0'' = replicate z CHR ''0'' @ [CHR ''0'']"
    by (simp add: replicate_append_same)
  then show ?case using Suc.IH by (simp only: digits_nat_snoc) (simp add: digit_val_def)
qed

lemma digits_nat_Nil: "digits_nat [] = 0"
  by (simp add: digits_nat_def)

lemma zeros_digits: "c \<in> set (replicate z CHR ''0'') \<Longrightarrow> is_digit c"
  by (simp add: is_digit_def)

lemma takeWhile_digits:
  assumes "\<forall>c \<in> set ds. is_digit c" and "t = [] \<or> \<not> is_digit (hd t)"
  shows "takeWhile is_digit (ds @ t) = ds" and "dropWhile is_digit (ds @ t) = t"
proof -
  from assms(2) have "takeWhile is_digit t = []" and "dropWhile is_digit t = t"
    by (cases t; auto)+
  with assms(1) show "takeWhile is_digit (ds @ t) = ds" and "dropWhile is_digit (ds @ t) = t"
    by (simp_all add: takeWhile_append2 dropWhile_append2)
qed

subsection \<open>Numbers\<close>

lemma canon_zero: "canon 0 e = Finite 0 0"
  by (simp add: canon.simps)

lemma canon_shift: "canon (m * 10 ^ z) e = canon m (e + int z)"
proof (induction z arbitrary: e)
  case 0
  show ?case by simp
next
  case (Suc z)
  show ?case
  proof (cases "m = 0")
    case True
    then show ?thesis by (simp add: canon_zero)
  next
    case False
    then have "m * 10 ^ Suc z \<noteq> 0" and "(m * 10 ^ Suc z) mod 10 = 0"
      and "(m * 10 ^ Suc z) div 10 = m * 10 ^ z"
      by simp_all
    then have "canon (m * 10 ^ Suc z) e = canon (m * 10 ^ z) (e + 1)"
      by (subst canon.simps) simp
    also have "\<dots> = canon m (e + 1 + int z)" by (rule Suc.IH)
    finally show ?thesis by (simp add: add.commute add.left_commute)
  qed
qed

lemma canon_finite: "finite_number (Finite m e) \<Longrightarrow> canon m e = Finite m e"
  by (subst canon.simps) auto

lemma value_end_cases:
  "value_end rest \<Longrightarrow>
   rest = [] \<or> (\<exists>c r. rest = c # r \<and> (c = CHR '','' \<or> c = CHR '']'' \<or> c = CHR ''}''))"
  by (cases rest) (auto simp: value_end_def)

lemma value_end_no_digit: "value_end rest \<Longrightarrow> rest = [] \<or> \<not> is_digit (hd rest)"
  by (auto dest!: value_end_cases simp: is_digit_def)

lemma value_end_simps [simp]:
  "value_end []"
  "value_end (CHR '','' # r)"
  "value_end (CHR '']'' # r)"
  "value_end (CHR ''}'' # r)"
  by (simp_all add: value_end_def)

lemma skip_ws_value_end: "value_end rest \<Longrightarrow> skip_ws rest = rest"
  by (auto dest!: value_end_cases simp: skip_ws_def is_ws_def)

lemma parse_frac_none: "value_end rest \<Longrightarrow> parse_frac rest = Some ([], rest)"
  by (auto dest!: value_end_cases simp: parse_frac_def)

lemma parse_exp_none: "value_end rest \<Longrightarrow> parse_exp rest = Some (0, rest)"
  by (auto dest!: value_end_cases simp: parse_exp_def)

lemma parse_frac_digits:
  assumes "ds \<noteq> []" and "\<forall>c \<in> set ds. is_digit c" and "t = [] \<or> \<not> is_digit (hd t)"
  shows "parse_frac (CHR ''.'' # ds @ t) = Some (ds, t)"
  using assms(1) by (simp add: parse_frac_def takeWhile_digits [OF assms(2,3)])

lemma parse_exp_digits:
  assumes "value_end rest"
  shows "parse_exp (CHR ''e'' # (if x < 0 then CHR ''-'' else CHR ''+'') # nat_str (nat \<bar>x\<bar>) @ rest) =
     Some (x, rest)"
proof -
  define n where "n = nat \<bar>x\<bar>"
  have d: "\<forall>c \<in> set (nat_str n). is_digit c" by (simp add: nat_str_digits)
  note tw = takeWhile_digits [OF d value_end_no_digit [OF assms]]
  have a: "parse_exp (CHR ''e'' # (if x < 0 then CHR ''-'' else CHR ''+'') # nat_str n @ rest) =
     Some (if x < 0 then - int n else int n, rest)"
    by (simp add: parse_exp_def Let_def tw nat_str_nonempty nat_str_value)
  have b: "(if x < 0 then - int n else int n) = x" by (simp add: n_def)
  show ?thesis unfolding n_def [symmetric] using a b by simp
qed

lemma parse_number_digits:
  assumes ip: "ip \<noteq> []" "\<forall>c \<in> set ip. is_digit c" "length ip = 1 \<or> hd ip \<noteq> CHR ''0''"
    and t: "t = [] \<or> \<not> is_digit (hd t)"
    and fr: "parse_frac t = Some (fr, t')" and ex: "parse_exp t' = Some (ex, t'')"
  shows "parse_number (ip @ t) =
      Some (canon (int (digits_nat (ip @ fr))) (ex - int (length fr)), t'')"
    and "parse_number (CHR ''-'' # ip @ t) =
      Some (canon (- int (digits_nat (ip @ fr))) (ex - int (length fr)), t'')"
proof -
  from ip(1,2) have "is_digit (hd ip)" by (cases ip) auto
  then have h: "hd ip \<noteq> CHR ''-''" by (auto dest: is_digit_not_special)
  from ip(1) have hd: "hd (ip @ t) = hd ip" by simp
  note tw = takeWhile_digits [OF ip(2) t]
  show "parse_number (ip @ t) =
      Some (canon (int (digits_nat (ip @ fr))) (ex - int (length fr)), t'')"
    unfolding parse_number_def Let_def using ip(1,3) h
    by (auto simp: hd tw fr ex)
  show "parse_number (CHR ''-'' # ip @ t) =
      Some (canon (- int (digits_nat (ip @ fr))) (ex - int (length fr)), t'')"
    unfolding parse_number_def Let_def using ip(1,3)
    by (auto simp: tw fr ex)
qed

lemma parse_frac_other: "t \<noteq> [] \<Longrightarrow> hd t \<noteq> CHR ''.'' \<Longrightarrow> parse_frac t = Some ([], t)"
  by (cases t) (auto simp: parse_frac_def)

lemma digits_nat_leading_zeros: "digits_nat (replicate z CHR ''0'' @ ds) = digits_nat ds"
  by (simp add: digits_nat_append digits_nat_zeros)

lemma canon_neg_shift: "canon (- (int s * 10 ^ z)) e = canon (- int s) (e + int z)"
  using canon_shift [of "- int s" z e] by simp

lemma is_digit_chars [simp]:
  "is_digit CHR ''0''" "\<not> is_digit CHR ''.''" "\<not> is_digit CHR ''e''" "\<not> is_digit CHR ''-''"
  by (simp_all add: is_digit_def)

lemma pn_integer:
  assumes D: "ds \<noteq> []" "\<forall>c \<in> set ds. is_digit c" "hd ds \<noteq> CHR ''0''" and r: "value_end rest"
  shows "parse_number (ds @ replicate z CHR ''0'' @ rest) =
      Some (canon (int (digits_nat ds)) (int z), rest)"
    and "parse_number (CHR ''-'' # ds @ replicate z CHR ''0'' @ rest) =
      Some (canon (- int (digits_nat ds)) (int z), rest)"
proof -
  let ?ip = "ds @ replicate z CHR ''0''"
  have ip1: "?ip \<noteq> []" using D(1) by simp
  have ip2: "\<forall>c \<in> set ?ip. is_digit c" using D(2) by auto
  have ip3: "length ?ip = 1 \<or> hd ?ip \<noteq> CHR ''0''" using D(1,3) by simp
  note pn = parse_number_digits [OF ip1 ip2 ip3 value_end_no_digit [OF r]
      parse_frac_none [OF r] parse_exp_none [OF r]]
  have v: "digits_nat (?ip @ []) = digits_nat ds * 10 ^ z"
    by (simp add: digits_nat_append digits_nat_zeros)
  have c1: "canon (int (digits_nat ds * 10 ^ z)) (0 - int (length ([]::string))) =
      canon (int (digits_nat ds)) (int z)"
    using canon_shift [of "int (digits_nat ds)" z 0] by simp
  have c2: "canon (- int (digits_nat ds * 10 ^ z)) (0 - int (length ([]::string))) =
      canon (- int (digits_nat ds)) (int z)"
    using canon_neg_shift [of "digits_nat ds" z 0] by simp
  from pn(1) show "parse_number (ds @ replicate z CHR ''0'' @ rest) =
      Some (canon (int (digits_nat ds)) (int z), rest)"
    unfolding v c1 by simp
  from pn(2) show "parse_number (CHR ''-'' # ds @ replicate z CHR ''0'' @ rest) =
      Some (canon (- int (digits_nat ds)) (int z), rest)"
    unfolding v c2 by simp
qed

lemma pn_point:
  assumes D: "ds \<noteq> []" "\<forall>c \<in> set ds. is_digit c" "hd ds \<noteq> CHR ''0''" and r: "value_end rest"
    and j: "0 < j" "j < length ds"
  shows "parse_number (take j ds @ CHR ''.'' # drop j ds @ rest) =
      Some (canon (int (digits_nat ds)) (- int (length ds - j)), rest)"
    and "parse_number (CHR ''-'' # take j ds @ CHR ''.'' # drop j ds @ rest) =
      Some (canon (- int (digits_nat ds)) (- int (length ds - j)), rest)"
proof -
  let ?ip = "take j ds" and ?fr = "drop j ds"
  from D(1) obtain d ds' where dd: "ds = d # ds'" by (cases ds) auto
  from j(1) obtain j' where jj: "j = Suc j'" by (cases j) auto
  have ip1: "?ip \<noteq> []" by (simp add: dd jj)
  have ip2: "\<forall>c \<in> set ?ip. is_digit c" using D(2) by (auto dest: in_set_takeD)
  have ip3: "length ?ip = 1 \<or> hd ?ip \<noteq> CHR ''0''" using D(3) by (simp add: dd jj)
  have frne: "?fr \<noteq> []" using j(2) by simp
  have frd: "\<forall>c \<in> set ?fr. is_digit c" using D(2) by (auto dest: in_set_dropD)
  have t: "CHR ''.'' # ?fr @ rest = [] \<or> \<not> is_digit (hd (CHR ''.'' # ?fr @ rest))" by simp
  note pn = parse_number_digits [OF ip1 ip2 ip3 t
      parse_frac_digits [OF frne frd value_end_no_digit [OF r]] parse_exp_none [OF r]]
  have v: "digits_nat (?ip @ ?fr) = digits_nat ds" by simp
  have ex: "0 - int (length ?fr) = - int (length ds - j)" by simp
  from pn(1) show "parse_number (take j ds @ CHR ''.'' # drop j ds @ rest) =
      Some (canon (int (digits_nat ds)) (- int (length ds - j)), rest)"
    unfolding v ex by simp
  from pn(2) show "parse_number (CHR ''-'' # take j ds @ CHR ''.'' # drop j ds @ rest) =
      Some (canon (- int (digits_nat ds)) (- int (length ds - j)), rest)"
    unfolding v ex by simp
qed

lemma pn_small:
  assumes D: "ds \<noteq> []" "\<forall>c \<in> set ds. is_digit c" and r: "value_end rest"
  shows "parse_number (''0.'' @ replicate z CHR ''0'' @ ds @ rest) =
      Some (canon (int (digits_nat ds)) (- int (z + length ds)), rest)"
    and "parse_number (CHR ''-'' # ''0.'' @ replicate z CHR ''0'' @ ds @ rest) =
      Some (canon (- int (digits_nat ds)) (- int (z + length ds)), rest)"
proof -
  let ?fr = "replicate z CHR ''0'' @ ds"
  have ip1: "''0'' \<noteq> []" by simp
  have ip2: "\<forall>c \<in> set ''0''. is_digit c" by simp
  have ip3: "length ''0'' = 1 \<or> hd ''0'' \<noteq> CHR ''0''" by simp
  have frne: "?fr \<noteq> []" using D(1) by simp
  have frd: "\<forall>c \<in> set ?fr. is_digit c" using D(2) by auto
  have t: "CHR ''.'' # ?fr @ rest = [] \<or> \<not> is_digit (hd (CHR ''.'' # ?fr @ rest))" by simp
  note pn = parse_number_digits [OF ip1 ip2 ip3 t
      parse_frac_digits [OF frne frd value_end_no_digit [OF r]] parse_exp_none [OF r]]
  have "''0'' @ ?fr = replicate (Suc z) CHR ''0'' @ ds" by simp
  then have v: "digits_nat (''0'' @ ?fr) = digits_nat ds"
    by (simp only: digits_nat_leading_zeros)
  have ex: "0 - int (length ?fr) = - int (z + length ds)" by simp
  from pn(1) show "parse_number (''0.'' @ replicate z CHR ''0'' @ ds @ rest) =
      Some (canon (int (digits_nat ds)) (- int (z + length ds)), rest)"
    unfolding v ex by simp
  from pn(2) show "parse_number (CHR ''-'' # ''0.'' @ replicate z CHR ''0'' @ ds @ rest) =
      Some (canon (- int (digits_nat ds)) (- int (z + length ds)), rest)"
    unfolding v ex by simp
qed

lemma pn_exp_one:
  assumes D: "\<forall>c \<in> set [d]. is_digit c" and r: "value_end rest"
  shows "parse_number (d # CHR ''e'' # (if x < 0 then CHR ''-'' else CHR ''+'') #
           nat_str (nat \<bar>x\<bar>) @ rest) = Some (canon (int (digits_nat [d])) x, rest)"
    and "parse_number (CHR ''-'' # d # CHR ''e'' # (if x < 0 then CHR ''-'' else CHR ''+'') #
           nat_str (nat \<bar>x\<bar>) @ rest) = Some (canon (- int (digits_nat [d])) x, rest)"
proof -
  let ?ex = "CHR ''e'' # (if x < 0 then CHR ''-'' else CHR ''+'') # nat_str (nat \<bar>x\<bar>) @ rest"
  have ip1: "[d] \<noteq> []" by simp
  have ip3: "length [d] = 1 \<or> hd [d] \<noteq> CHR ''0''" by simp
  have t: "?ex = [] \<or> \<not> is_digit (hd ?ex)" by simp
  have pf: "parse_frac ?ex = Some ([], ?ex)" by (rule parse_frac_other) simp_all
  note pn = parse_number_digits [OF ip1 D ip3 t pf parse_exp_digits [OF r, of x]]
  from pn(1) show "parse_number (d # ?ex) = Some (canon (int (digits_nat [d])) x, rest)"
    by simp
  from pn(2) show "parse_number (CHR ''-'' # d # ?ex) = Some (canon (- int (digits_nat [d])) x, rest)"
    by simp
qed

lemma pn_exp_more:
  assumes D: "\<forall>c \<in> set (d # ds). is_digit c" "ds \<noteq> []" and r: "value_end rest"
  shows "parse_number (d # CHR ''.'' # ds @ CHR ''e'' # (if x < 0 then CHR ''-'' else CHR ''+'') #
           nat_str (nat \<bar>x\<bar>) @ rest) =
         Some (canon (int (digits_nat (d # ds))) (x - int (length ds)), rest)"
    and "parse_number (CHR ''-'' # d # CHR ''.'' # ds @ CHR ''e'' #
           (if x < 0 then CHR ''-'' else CHR ''+'') # nat_str (nat \<bar>x\<bar>) @ rest) =
         Some (canon (- int (digits_nat (d # ds))) (x - int (length ds)), rest)"
proof -
  let ?ex = "CHR ''e'' # (if x < 0 then CHR ''-'' else CHR ''+'') # nat_str (nat \<bar>x\<bar>) @ rest"
  have ip1: "[d] \<noteq> []" by simp
  have ip2: "\<forall>c \<in> set [d]. is_digit c" using D(1) by simp
  have ip3: "length [d] = 1 \<or> hd [d] \<noteq> CHR ''0''" by simp
  have frd: "\<forall>c \<in> set ds. is_digit c" using D(1) by simp
  have t: "CHR ''.'' # ds @ ?ex = [] \<or> \<not> is_digit (hd (CHR ''.'' # ds @ ?ex))" by simp
  have t2: "?ex = [] \<or> \<not> is_digit (hd ?ex)" by simp
  note pn = parse_number_digits [OF ip1 ip2 ip3 t parse_frac_digits [OF D(2) frd t2]
      parse_exp_digits [OF r, of x]]
  from pn(1) show "parse_number (d # CHR ''.'' # ds @ ?ex) =
         Some (canon (int (digits_nat (d # ds))) (x - int (length ds)), rest)"
    by simp
  from pn(2) show "parse_number (CHR ''-'' # d # CHR ''.'' # ds @ ?ex) =
         Some (canon (- int (digits_nat (d # ds))) (x - int (length ds)), rest)"
    by simp
qed

lemma parse_positive_text:
  assumes s: "0 < s" and r: "value_end rest"
  shows "parse_number (positive_text s e @ rest) = Some (canon (int s) e, rest)"
    and "parse_number (CHR ''-'' # positive_text s e @ rest) = Some (canon (- int s) e, rest)"
proof -
  define ds where "ds = nat_str s"
  define k where "k = int (length ds)"
  define n where "n = k + e"
  define c1 where "c1 \<longleftrightarrow> k \<le> n \<and> n \<le> 21"
  define c2 where "c2 \<longleftrightarrow> 0 < n \<and> n \<le> 21"
  define c3 where "c3 \<longleftrightarrow> - 6 < n \<and> n \<le> 0"
  have ne: "ds \<noteq> []" and dig: "\<forall>c \<in> set ds. is_digit c" and h0: "hd ds \<noteq> CHR ''0''"
    and val: "digits_nat ds = s"
    using s by (simp_all add: ds_def nat_str_nonempty nat_str_digits nat_str_hd_nonzero nat_str_value)
  have k1: "1 \<le> k" using ne by (cases ds) (simp_all add: k_def)
  have pt: "positive_text s e =
     (if c1 then ds @ replicate (nat e) CHR ''0''
      else if c2 then take (nat n) ds @ CHR ''.'' # drop (nat n) ds
      else if c3 then ''0.'' @ replicate (nat (- n)) CHR ''0'' @ ds
      else (if k = 1 then ds else hd ds # CHR ''.'' # tl ds) @
           CHR ''e'' # (if n - 1 < 0 then CHR ''-'' else CHR ''+'') # nat_str (nat \<bar>n - 1\<bar>))"
    unfolding positive_text_def Let_def ds_def k_def n_def c1_def c2_def c3_def ..
  have both: "parse_number (positive_text s e @ rest) = Some (canon (int s) e, rest) \<and>
     parse_number (CHR ''-'' # positive_text s e @ rest) = Some (canon (- int s) e, rest)"
  proof (cases c1)
    case True
    then have e0: "int (nat e) = e" by (simp add: n_def c1_def)
    have tx: "positive_text s e = ds @ replicate (nat e) CHR ''0''"
      by (simp add: pt True)
    from pn_integer [OF ne dig h0 r, of "nat e"] show ?thesis
      unfolding tx val e0 by simp
  next
    case F1: False
    show ?thesis
    proof (cases c2)
      case True
      with F1 have nk: "n < k" and n0: "0 < n" by (simp_all add: c1_def c2_def)
      have tx: "positive_text s e = take (nat n) ds @ CHR ''.'' # drop (nat n) ds"
        by (simp add: pt F1 True)
      have j: "0 < nat n" "nat n < length ds" using n0 nk unfolding k_def by linarith+
      have ex: "- int (length ds - nat n) = e" using n0 nk unfolding n_def k_def by linarith
      from pn_point [OF ne dig h0 r j] show ?thesis
        unfolding tx val ex by simp
    next
      case F2: False
      show ?thesis
      proof (cases c3)
        case True
        have tx: "positive_text s e = ''0.'' @ replicate (nat (- n)) CHR ''0'' @ ds"
          by (simp add: pt F1 F2 True)
        have ex: "- int (nat (- n) + length ds) = e"
          using True unfolding c3_def n_def k_def by linarith
        from pn_small [OF ne dig r, of "nat (- n)"] show ?thesis
          unfolding tx val ex by simp
      next
        case F3: False
        have pe: "positive_text s e = (if k = 1 then ds else hd ds # CHR ''.'' # tl ds) @
           CHR ''e'' # (if n - 1 < 0 then CHR ''-'' else CHR ''+'') # nat_str (nat \<bar>n - 1\<bar>)"
          by (simp add: pt F1 F2 F3)
        show ?thesis
        proof (cases "k = 1")
          case True
          then obtain d where dd: "ds = [d]" by (cases ds; cases "tl ds") (auto simp: k_def)
          have tx: "positive_text s e = d # CHR ''e'' #
              (if n - 1 < 0 then CHR ''-'' else CHR ''+'') # nat_str (nat \<bar>n - 1\<bar>)"
            unfolding pe using True by (simp add: dd)
          have ex: "n - 1 = e" using True by (simp add: n_def)
          from dig have D: "\<forall>c \<in> set [d]. is_digit c" by (simp add: dd)
          from val have v: "digits_nat [d] = s" by (simp add: dd)
          from pn_exp_one [OF D r, of "n - 1"] show ?thesis
            unfolding tx v unfolding ex by simp
        next
          case False
          with k1 have k2: "1 < k" by simp
          then obtain d ds' where dd: "ds = d # ds'" and tne: "ds' \<noteq> []"
            by (cases ds; cases "tl ds") (auto simp: k_def)
          have tx: "positive_text s e = d # CHR ''.'' # ds' @ CHR ''e'' #
              (if n - 1 < 0 then CHR ''-'' else CHR ''+'') # nat_str (nat \<bar>n - 1\<bar>)"
            unfolding pe using False by (simp add: dd)
          have ex: "n - 1 - int (length ds') = e" by (simp add: n_def k_def dd)
          from dig have D: "\<forall>c \<in> set (d # ds'). is_digit c" by (simp add: dd)
          from val have v: "digits_nat (d # ds') = s" by (simp add: dd)
          from pn_exp_more [OF D tne r, of "n - 1"] show ?thesis
            unfolding tx v ex by simp
        qed
      qed
    qed
  qed
  from both show "parse_number (positive_text s e @ rest) = Some (canon (int s) e, rest)"
    and "parse_number (CHR ''-'' # positive_text s e @ rest) = Some (canon (- int s) e, rest)"
    by simp_all
qed

lemma parse_number_text:
  assumes "value_end rest"
  shows "parse_number (number_text (Finite m e) @ rest) = Some (canon m e, rest)"
proof (cases "m = 0")
  case True
  have ip: "''0'' \<noteq> []" "\<forall>c \<in> set ''0''. is_digit c" "length ''0'' = 1 \<or> hd ''0'' \<noteq> CHR ''0''"
    by (simp_all add: is_digit_def)
  from parse_number_digits(1) [OF ip value_end_no_digit [OF assms] parse_frac_none [OF assms]
      parse_exp_none [OF assms]]
  show ?thesis using True by (simp add: digits_nat_def digit_val_def canon_zero)
next
  case False
  show ?thesis
  proof (cases "m < 0")
    case True
    then have "0 < nat (- m)" by simp
    from parse_positive_text(2) [OF this assms, of e] True show ?thesis by simp
  next
    case F: False
    with False have "0 < nat m" by simp
    from parse_positive_text(1) [OF this assms, of e] False F show ?thesis by simp
  qed
qed

lemma parse_number_hd:
  assumes "parse_number s = Some x"
  shows "s \<noteq> [] \<and> (hd s = CHR ''-'' \<or> is_digit (hd s))"
proof -
  let ?s1 = "if s \<noteq> [] \<and> hd s = CHR ''-'' then tl s else s"
  from assms have "takeWhile is_digit ?s1 \<noteq> []"
    unfolding parse_number_def Let_def by (auto split: if_splits)
  then have "?s1 \<noteq> [] \<and> is_digit (hd ?s1)" by (cases ?s1) (auto split: if_splits)
  then show ?thesis by (auto split: if_splits)
qed

lemma number_text_hd:
  "\<exists>c cs. number_text n = c # cs \<and> (c = CHR ''-'' \<or> is_digit c \<or> c = CHR ''n'')"
proof (cases n)
  case (Finite m e)
  from parse_number_text [of "[]" m e] have "parse_number (number_text (Finite m e)) = Some (canon m e, [])"
    by simp
  from parse_number_hd [OF this] Finite show ?thesis
    by (cases "number_text (Finite m e)") auto
qed simp_all

subsection \<open>Strings\<close>

lemma hex_cases:
  assumes "d < (16::nat)"
  shows "d = 0 \<or> d = 1 \<or> d = 2 \<or> d = 3 \<or> d = 4 \<or> d = 5 \<or> d = 6 \<or> d = 7 \<or> d = 8 \<or> d = 9 \<or>
    d = 10 \<or> d = 11 \<or> d = 12 \<or> d = 13 \<or> d = 14 \<or> d = 15"
  using assms by arith

lemma hex_val_hex_char: "d < 16 \<Longrightarrow> hex_val (hex_char d) = Some d"
  using hex_cases [of d] by (auto simp: hex_val_def hex_char_def is_digit_def)

lemma hex4_encode:
  assumes "n < 32"
  shows "hex4 [CHR ''0'', CHR ''0'', hex_char (n div 16), hex_char (n mod 16)] = Some (char_of n)"
proof -
  from assms have a: "n div 16 < 16" and b: "n mod 16 < 16" by simp_all
  have z: "hex_val CHR ''0'' = Some 0" by (simp add: hex_val_def is_digit_def)
  from assms show ?thesis
    by (simp add: hex4_def z hex_val_hex_char [OF a] hex_val_hex_char [OF b])
qed

lemma parse_string_escape_char:
  "parse_string (escape_char c @ t) = cons_char c (parse_string t)"
proof (cases "(of_char c :: nat) < 32")
  case True
  have "char_of (of_char c :: nat) = c" by simp
  with hex4_encode [OF True] show ?thesis
    using True by (auto simp: escape_char_def unescape_def)
next
  case False
  then show ?thesis by (auto simp: escape_char_def unescape_def)
qed

lemma parse_string_escaped:
  "parse_string (concat (map escape_char s) @ CHR 0x22 # rest) = Some (s, rest)"
  by (induction s) (simp_all add: parse_string_escape_char cons_char_def)

lemma parse_string_quote:
  "parse_string (tl (quote s) @ rest) = Some (s, rest)"
  using parse_string_escaped [of s rest] by (simp add: quote_def)

subsection \<open>Values\<close>

lemma skip_ws_not_ws: "\<not> is_ws c \<Longrightarrow> skip_ws (c # r) = c # r"
  by (simp add: skip_ws_def)

lemma skip_ws_delims [simp]:
  "skip_ws (CHR '','' # r) = CHR '','' # r"
  "skip_ws (CHR '']'' # r) = CHR '']'' # r"
  "skip_ws (CHR ''}'' # r) = CHR ''}'' # r"
  "skip_ws (CHR '':'' # r) = CHR '':'' # r"
  "skip_ws (CHR 0x22 # r) = CHR 0x22 # r"
  by (simp_all add: skip_ws_def is_ws_def)

lemma json_nodes_pos: "0 < json_nodes v"
  by (cases v) simp_all

lemma serialize_hd:
  "\<exists>c cs. serialize v = c # cs \<and> c \<noteq> CHR '']'' \<and> c \<noteq> CHR ''}'' \<and> \<not> is_ws c"
proof (cases v)
  case (JNum n)
  from number_text_hd [of n] obtain c cs where a: "number_text n = c # cs"
    and b: "c = CHR ''-'' \<or> is_digit c \<or> c = CHR ''n''" by blast
  from b have "c \<noteq> CHR '']'' \<and> c \<noteq> CHR ''}'' \<and> \<not> is_ws c"
  proof (elim disjE)
    assume "is_digit c"
    from is_digit_not_special [OF this] show ?thesis by simp
  qed (simp_all add: is_ws_def)
  with a JNum show ?thesis by simp
next
  case (JStr s)
  then show ?thesis by (simp add: quote_def is_ws_def)
qed (simp_all add: is_ws_def)

lemma skip_ws_serialize: "skip_ws (serialize v @ rest) = serialize v @ rest"
proof -
  from serialize_hd [of v] obtain c cs where "serialize v = c # cs" "\<not> is_ws c" by blast
  then show ?thesis by (simp add: skip_ws_not_ws)
qed

lemma parse_value_number:
  assumes "value_end rest"
  shows "parse_value (Suc f) (number_text (Finite m e) @ rest) = Some (JNum (canon m e), rest)"
proof -
  define s where "s = number_text (Finite m e) @ rest"
  have p: "parse_number s = Some (canon m e, rest)"
    unfolding s_def by (rule parse_number_text [OF assms])
  from parse_number_hd [OF this] obtain c cs where cs: "s = c # cs"
    and c: "c = CHR ''-'' \<or> is_digit c"
    by (cases s) auto
  from c have sp: "c \<noteq> CHR ''n'' \<and> c \<noteq> CHR ''t'' \<and> c \<noteq> CHR ''f'' \<and> c \<noteq> CHR 0x22 \<and>
     c \<noteq> CHR ''['' \<and> c \<noteq> CHR ''{'' \<and> \<not> is_ws c"
  proof
    assume "is_digit c"
    from is_digit_not_special [OF this] show ?thesis by simp
  qed (simp add: is_ws_def)
  then have sk: "skip_ws (c # cs) = c # cs" by (simp add: skip_ws_not_ws)
  from p have pn: "parse_number (c # cs) = Some (canon m e, rest)" by (simp only: cs)
  have "parse_value (Suc f) (c # cs) = Some (JNum (canon m e), rest)"
    unfolding parse_value.simps sk using sp by (simp add: pn)
  then show ?thesis unfolding cs [symmetric] s_def .
qed

lemma parse_elems_serialize:
  assumes "xs \<noteq> []"
    and "\<And>x f rest. x \<in> set xs \<Longrightarrow> json_nodes x \<le> f \<Longrightarrow> value_end rest \<Longrightarrow>
          parse_value f (serialize x @ rest) = Some (reparsed x, rest)"
    and "sum_list (map (\<lambda>x. 1 + json_nodes x) xs) \<le> f"
  shows "parse_elems f (sep_commas (map serialize xs) @ CHR '']'' # rest) =
     Some (map reparsed xs, rest)"
  using assms
proof (induction xs arbitrary: f rule: list_nonempty_induct)
  case (single x)
  from single.prems(2) obtain f' where f: "f = Suc f'" and f': "json_nodes x \<le> f'"
    by (cases f) auto
  have "parse_value f' (serialize x @ CHR '']'' # rest) = Some (reparsed x, CHR '']'' # rest)"
    by (rule single.prems(1)) (simp_all add: f')
  then show ?case by (simp add: f)
next
  case (cons x xs)
  from cons.prems(2) obtain f' where f: "f = Suc f'"
    and fx: "json_nodes x \<le> f'"
    and fxs: "sum_list (map (\<lambda>x. 1 + json_nodes x) xs) \<le> f'"
    by (cases f) auto
  obtain y ys where xs: "xs = y # ys" using cons.hyps by (cases xs) auto
  let ?more = "sep_commas (map serialize xs) @ CHR '']'' # rest"
  have pv: "parse_value f' (serialize x @ CHR '','' # ?more) = Some (reparsed x, CHR '','' # ?more)"
    by (rule cons.prems(1)) (simp_all add: fx)
  have pe: "parse_elems f' ?more = Some (map reparsed xs, rest)"
    by (rule cons.IH) (use cons.prems(1) fxs in auto)
  have "sep_commas (map serialize (x # xs)) @ CHR '']'' # rest =
        serialize x @ CHR '','' # ?more"
    by (simp add: xs)
  then show ?case using pv pe by (simp add: f)
qed

lemma parse_fields_serialize:
  assumes "fs \<noteq> []"
    and "\<And>p f rest. p \<in> set fs \<Longrightarrow> json_nodes (snd p) \<le> f \<Longrightarrow> value_end rest \<Longrightarrow>
          parse_value f (serialize (snd p) @ rest) = Some (reparsed (snd p), rest)"
    and "sum_list (map (\<lambda>p. 1 + json_nodes (snd p)) fs) \<le> f"
  shows "parse_fields f
           (sep_commas (map (\<lambda>(k, v). quote k @ CHR '':'' # serialize v) fs) @ CHR ''}'' # rest) =
         Some (map (\<lambda>(k, v). (k, reparsed v)) fs, rest)"
  using assms
proof (induction fs arbitrary: f rule: list_nonempty_induct)
  case (single p)
  obtain k v where p: "p = (k, v)" by (cases p)
  from single.prems(2) obtain f' where f: "f = Suc f'" and f': "json_nodes v \<le> f'"
    by (cases f) (auto simp: p)
  have pv: "parse_value f' (serialize v @ CHR ''}'' # rest) = Some (reparsed v, CHR ''}'' # rest)"
    using single.prems(1) [of p f' "CHR ''}'' # rest"] f' by (simp add: p)
  have ps: "parse_string (tl (quote k) @ CHR '':'' # serialize v @ CHR ''}'' # rest) =
            Some (k, CHR '':'' # serialize v @ CHR ''}'' # rest)"
    by (rule parse_string_quote)
  have e: "sep_commas (map (\<lambda>(k, v). quote k @ CHR '':'' # serialize v) [(k, v)]) @ CHR ''}'' # rest =
        CHR 0x22 # tl (quote k) @ CHR '':'' # serialize v @ CHR ''}'' # rest"
    by (simp add: quote_def)
  have "parse_fields (Suc f') (CHR 0x22 # tl (quote k) @ CHR '':'' # serialize v @ CHR ''}'' # rest) =
        Some ([(k, reparsed v)], rest)"
    by (simp add: ps pv)
  then show ?case unfolding p e f by simp
next
  case (cons p fs)
  obtain k v where p: "p = (k, v)" by (cases p)
  from cons.prems(2) obtain f' where f: "f = Suc f'"
    and fx: "json_nodes v \<le> f'"
    and fxs: "sum_list (map (\<lambda>p. 1 + json_nodes (snd p)) fs) \<le> f'"
    by (cases f) (auto simp: p)
  obtain y ys where fs: "fs = y # ys" using cons.hyps by (cases fs) auto
  let ?more = "sep_commas (map (\<lambda>(k, v). quote k @ CHR '':'' # serialize v) fs) @ CHR ''}'' # rest"
  have pv: "parse_value f' (serialize v @ CHR '','' # ?more) = Some (reparsed v, CHR '','' # ?more)"
    using cons.prems(1) [of p f' "CHR '','' # ?more"] fx by (simp add: p)
  have pe: "parse_fields f' ?more = Some (map (\<lambda>(k, v). (k, reparsed v)) fs, rest)"
    by (rule cons.IH) (use cons.prems(1) fxs in auto)
  have ps: "parse_string (tl (quote k) @ CHR '':'' # serialize v @ CHR '','' # ?more) =
            Some (k, CHR '':'' # serialize v @ CHR '','' # ?more)"
    by (rule parse_string_quote)
  have e: "sep_commas (map (\<lambda>(k, v). quote k @ CHR '':'' # serialize v) ((k, v) # fs)) @ CHR ''}'' # rest =
        CHR 0x22 # tl (quote k) @ CHR '':'' # serialize v @ CHR '','' # ?more"
    by (simp add: fs quote_def)
  have "parse_fields (Suc f') (CHR 0x22 # tl (quote k) @ CHR '':'' # serialize v @ CHR '','' # ?more) =
        Some ((k, reparsed v) # map (\<lambda>(k, v). (k, reparsed v)) fs, rest)"
    by (simp add: ps pv pe)
  then show ?case unfolding p e f by simp
qed

lemma parse_value_serialize:
  "json_nodes v \<le> f \<Longrightarrow> value_end rest \<Longrightarrow>
   parse_value f (serialize v @ rest) = Some (reparsed v, rest)"
proof (induction v arbitrary: f rest)
  case JNull
  then obtain f' where "f = Suc f'" by (cases f) auto
  then show ?case by (simp add: skip_ws_def is_ws_def)
next
  case JUndefined
  then obtain f' where "f = Suc f'" by (cases f) auto
  then show ?case by (simp add: skip_ws_def is_ws_def)
next
  case (JBool b)
  then obtain f' where "f = Suc f'" by (cases f) auto
  then show ?case by (simp add: skip_ws_def is_ws_def)
next
  case (JNum n)
  then obtain f' where f: "f = Suc f'" by (cases f) auto
  show ?case
  proof (cases n)
    case (Finite m e)
    have "parse_value (Suc f') (number_text (Finite m e) @ rest) = Some (JNum (canon m e), rest)"
      by (rule parse_value_number [OF JNum.prems(2)])
    then show ?thesis by (simp only: Finite f serialize.simps reparsed.simps number.case)
  qed (simp_all add: f skip_ws_def is_ws_def)
next
  case (JStr s)
  then obtain f' where f: "f = Suc f'" by (cases f) auto
  have ps: "parse_string (tl (quote s) @ rest) = Some (s, rest)" by (rule parse_string_quote)
  have q: "quote s @ rest = CHR 0x22 # (tl (quote s) @ rest)" by (simp add: quote_def)
  have "parse_value (Suc f') (CHR 0x22 # (tl (quote s) @ rest)) = Some (JStr s, rest)"
    using ps by simp
  then show ?case unfolding f serialize.simps q by simp
next
  case (JArr xs)
  then obtain f' where f: "f = Suc f'"
    and f': "sum_list (map (\<lambda>x. 1 + json_nodes x) xs) \<le> f'" by (cases f) auto
  show ?case
  proof (cases xs)
    case Nil
    then show ?thesis by (simp add: f skip_ws_def is_ws_def)
  next
    case (Cons y ys)
    let ?body = "sep_commas (map serialize xs) @ CHR '']'' # rest"
    have pe: "parse_elems f' ?body = Some (map reparsed xs, rest)"
      by (rule parse_elems_serialize) (use Cons JArr.IH f' in auto)
    obtain c cs where hd: "serialize y = c # cs" "c \<noteq> CHR '']''" "\<not> is_ws c"
      using serialize_hd [of y] by blast
    have "\<exists>cs'. ?body = c # cs'"
      using hd Cons by (cases ys) auto
    then obtain cs' where b: "?body = c # cs'" by blast
    have "parse_value (Suc f') (CHR ''['' # ?body) = Some (JArr (map reparsed xs), rest)"
      using pe hd(2,3) unfolding b by (simp add: skip_ws_def is_ws_def)
    then show ?thesis by (simp add: f)
  qed
next
  case (JObj fs)
  let ?fs = "filter (\<lambda>(k, v). v \<noteq> JUndefined) fs"
  from JObj.prems obtain f' where f: "f = Suc f'"
    and f': "sum_list (map (\<lambda>p. 1 + json_nodes (snd p)) ?fs) \<le> f'" by (cases f) auto
  show ?case
  proof (cases ?fs)
    case Nil
    then show ?thesis by (simp add: f skip_ws_def is_ws_def object_fields_def own_keys_order_def)
  next
    case (Cons y ys)
    let ?body = "sep_commas (map (\<lambda>(k, v). quote k @ CHR '':'' # serialize v) ?fs) @ CHR ''}'' # rest"
    have ih: "\<And>p f rest. p \<in> set ?fs \<Longrightarrow> json_nodes (snd p) \<le> f \<Longrightarrow> value_end rest \<Longrightarrow>
          parse_value f (serialize (snd p) @ rest) = Some (reparsed (snd p), rest)"
    proof -
      fix p :: "string \<times> json" and f rest
      assume "p \<in> set ?fs" "json_nodes (snd p) \<le> f" "value_end rest"
      moreover then have "p \<in> set fs" by simp
      moreover have "snd p \<in> Basic_BNFs.snds p" by (cases p) simp
      ultimately show "parse_value f (serialize (snd p) @ rest) = Some (reparsed (snd p), rest)"
        using JObj.IH by blast
    qed
    have ne: "?fs \<noteq> []" using Cons by simp
    have pe: "parse_fields f' ?body = Some (map (\<lambda>(k, v). (k, reparsed v)) ?fs, rest)"
      by (rule parse_fields_serialize [OF ne ih f'])
    have "\<exists>cs'. ?body = CHR 0x22 # cs'"
      unfolding Cons by (cases ys; cases y) (auto simp: quote_def)
    then obtain cs' where b: "?body = CHR 0x22 # cs'" by blast
    have "parse_value (Suc f') (CHR ''{'' # ?body) =
        Some (JObj (object_fields (map (\<lambda>(k, v). (k, reparsed v)) ?fs)), rest)"
      using pe unfolding b by (simp add: skip_ws_def is_ws_def)
    then show ?thesis by (simp add: f)
  qed
qed

lemma length_sep_commas: "sum_list (map (\<lambda>x. 1 + length x) xs) \<le> length (sep_commas xs) + 1"
  by (induction xs rule: sep_commas.induct) auto

lemma serialize_nonempty: "serialize v \<noteq> []"
  using serialize_hd [of v] by auto

lemma json_nodes_le_length: "json_nodes v \<le> length (serialize v)"
proof (induction v)
  case (JNum n)
  from serialize_nonempty [of "JNum n"] show ?case by (cases "serialize (JNum n)") simp_all
next
  case (JStr s)
  show ?case by (simp add: quote_def)
next
  case (JArr xs)
  have "sum_list (map (\<lambda>x. 1 + json_nodes x) xs) \<le>
        sum_list (map (\<lambda>x. 1 + length (serialize x)) xs)"
    by (rule sum_list_mono) (simp add: JArr.IH)
  also have "\<dots> = sum_list (map (\<lambda>x. 1 + length x) (map serialize xs))"
    by (simp add: comp_def)
  also have "\<dots> \<le> length (sep_commas (map serialize xs)) + 1"
    by (rule length_sep_commas)
  finally show ?case by simp
next
  case (JObj fs)
  let ?fs = "filter (\<lambda>(k, v). v \<noteq> JUndefined) fs"
  let ?field = "\<lambda>(k, v). quote k @ CHR '':'' # serialize v"
  have "sum_list (map (\<lambda>p. 1 + json_nodes (snd p)) ?fs) \<le>
        sum_list (map (\<lambda>p. 1 + length (?field p)) ?fs)"
  proof (rule sum_list_mono)
    fix p assume "p \<in> set ?fs"
    then have "p \<in> set fs" by simp
    moreover have "snd p \<in> Basic_BNFs.snds p" by (cases p) simp
    ultimately have "json_nodes (snd p) \<le> length (serialize (snd p))"
      using JObj.IH by blast
    then show "1 + json_nodes (snd p) \<le> 1 + length (?field p)"
      by (cases p) simp
  qed
  also have "\<dots> = sum_list (map (\<lambda>x. 1 + length x) (map ?field ?fs))"
    by (simp add: comp_def)
  also have "\<dots> \<le> length (sep_commas (map ?field ?fs)) + 1"
    by (rule length_sep_commas)
  finally show ?case by simp
qed simp_all

lemma JSON_parse_serialize: "JSON_parse (serialize v) = Some (reparsed v)"
proof -
  have "json_nodes v \<le> Suc (length (serialize v))"
    using json_nodes_le_length [of v] by simp
  from parse_value_serialize [OF this, of "[]"]
  show ?thesis by (simp add: JSON_parse_def skip_ws_def)
qed

lemma update_new_key: "k \<notin> fst ` set acc \<Longrightarrow> AList.update k v acc = acc @ [(k, v)]"
  by (induction acc) auto

lemma fold_update_distinct_keys:
  "distinct (map fst fs) \<Longrightarrow> fst ` set fs \<inter> fst ` set acc = {} \<Longrightarrow>
   fold (\<lambda>(k, v) acc. AList.update k v acc) fs acc = acc @ fs"
proof (induction fs arbitrary: acc)
  case Nil
  show ?case by simp
next
  case (Cons p fs)
  obtain k v where p: "p = (k, v)" by (cases p)
  from Cons.prems have k: "k \<notin> fst ` set acc" and d: "distinct (map fst fs)"
    and kf: "k \<notin> fst ` set fs" and i: "fst ` set fs \<inter> fst ` set acc = {}"
    by (auto simp: p)
  have "fst ` set fs \<inter> fst ` set (acc @ [(k, v)]) = {}" using i kf by auto
  from Cons.IH [OF d this] show ?case by (simp add: p update_new_key [OF k])
qed

lemma object_fields_distinct:
  "distinct (map fst fs) \<Longrightarrow> own_keys_order fs = fs \<Longrightarrow> object_fields fs = fs"
  unfolding object_fields_def using fold_update_distinct_keys [of fs "[]"] by simp

lemma reparsed_json_value: "json_value v \<Longrightarrow> reparsed v = v"
proof (induction v)
  case (JNum n)
  then show ?case by (cases n) (simp_all add: canon_finite)
next
  case (JArr xs)
  then show ?case by (simp add: map_idI)
next
  case (JObj fs)
  from JObj.prems have d: "distinct (map fst fs)" and o: "own_keys_order fs = fs"
    and jv: "\<forall>p \<in> set fs. json_value (snd p)"
    by simp_all
  have f: "filter (\<lambda>(k, v). v \<noteq> JUndefined) fs = fs"
  proof (rule filter_True)
    show "\<forall>p \<in> set fs. (case p of (k, v) \<Rightarrow> v \<noteq> JUndefined)"
      using jv by (auto simp: case_prod_beta)
  qed
  have m: "map (\<lambda>(k, v). (k, reparsed v)) fs = fs"
  proof (rule map_idI)
    fix p assume pin: "p \<in> set fs"
    moreover have "snd p \<in> Basic_BNFs.snds p" by (cases p) simp
    ultimately have "reparsed (snd p) = snd p" using JObj.IH jv by blast
    then show "(case p of (k, v) \<Rightarrow> (k, reparsed v)) = p" by (cases p) simp
  qed
  show ?case by (simp add: f m object_fields_distinct [OF d o])
qed simp_all

text \<open>The text of every value is read back as \<open>reparsed\<close> says; a value that JSON represents
  is read back unchanged.\<close>

lemma JSON_roundtrip: "json_value v \<Longrightarrow> JSON_parse (serialize v) = Some v"
  by (simp add: JSON_parse_serialize reparsed_json_value)

section \<open>Properties of the store and of claim_task and start_task\<close>

lemma find_append_single:
  "find P (xs @ [x]) = (case find P xs of None \<Rightarrow> (if P x then Some x else None) | Some y \<Rightarrow> Some y)"
  by (induction xs) auto

lemma parse_row_new:
  "parse_row \<lparr>row_id = i, row_task_id = ti, row_timestamp = ts, row_event = ev, row_message = msg,
      row_metadata = (if js_truthy m then JSON_stringify m else None)\<rparr> =
   Inr \<lparr>log_id = i, log_task_id = ti, log_timestamp = ts, log_event = ev, log_message = msg,
        log_metadata = (if js_truthy m then reparsed m else JNull)\<rparr>"
proof (cases "js_truthy m")
  case True
  then have "m \<noteq> JUndefined" by auto
  with True show ?thesis
    by (simp add: parse_row_def js_truthy_str_def JSON_stringify_def serialize_nonempty
        JSON_parse_serialize)
next
  case False
  then show ?thesis by (simp add: parse_row_def js_truthy_str_def)
qed

lemma q_addProgressLog_ok:
  assumes fresh: "\<forall>r \<in> set (progress_logs s). row_id r \<noteq> li_id l"
    and ex: "q_getTask s (li_task_id l) \<noteq> None"
  shows "q_addProgressLog s db_now l =
     (Inr (Some \<lparr>log_id = li_id l, log_task_id = li_task_id l, log_timestamp = db_now,
                 log_event = li_event l, log_message = li_message l,
                 log_metadata = (if js_truthy (li_metadata l) then reparsed (li_metadata l)
                                 else JNull)\<rparr>),
      s\<lparr>progress_logs := progress_logs s @
          [\<lparr>row_id = li_id l, row_task_id = li_task_id l, row_timestamp = db_now,
            row_event = li_event l, row_message = li_message l,
            row_metadata = (if js_truthy (li_metadata l)
                            then JSON_stringify (li_metadata l) else None)\<rparr>]\<rparr>)"
proof -
  have f: "find (\<lambda>r. row_id r = li_id l) (progress_logs s) = None"
    using fresh by (simp add: find_None_iff)
  show ?thesis
    unfolding q_addProgressLog_def Let_def q_getProgressLog_def
    using f ex by (simp add: find_append_single parse_row_new)
qed

lemma q_getTask_SomeD: "q_getTask s i = Some t \<Longrightarrow> task_id t = i \<and> t \<in> set (tasks s)"
  unfolding q_getTask_def by (auto simp: find_Some_iff in_set_conv_nth)

lemma apply_updates_id [simp]: "task_id (apply_updates u t) = task_id t"
  by (simp add: apply_updates_def)

lemma apply_updates_group [simp]: "group_id (apply_updates u t) = group_id t"
  by (simp add: apply_updates_def)

lemma find_map_upd:
  "find (\<lambda>t. task_id t = j) (map (\<lambda>t. if task_id t = i then apply_updates u t else t) ts) =
   map_option (\<lambda>t. if task_id t = i then apply_updates u t else t) (find (\<lambda>t. task_id t = j) ts)"
  by (induction ts) auto

lemma q_updateTask_tasks:
  "tasks (snd (q_updateTask s i u)) =
     map (\<lambda>t. if task_id t = i then apply_updates u t else t) (tasks s)"
proof (cases "u = no_updates")
  case True
  have "apply_updates no_updates = (\<lambda>t. t)"
    by (rule ext) (simp add: apply_updates_def no_updates_def set_field_def)
  with True show ?thesis by (simp add: q_updateTask_def map_idI)
next
  case False
  then show ?thesis by (simp add: q_updateTask_def Let_def)
qed

lemma q_updateTask_other_fields:
  "task_groups (snd (q_updateTask s i u)) = task_groups s"
  "task_dependencies (snd (q_updateTask s i u)) = task_dependencies s"
  "task_file_ownerships (snd (q_updateTask s i u)) = task_file_ownerships s"
  "progress_logs (snd (q_updateTask s i u)) = progress_logs s"
  by (simp_all add: q_updateTask_def Let_def)

lemma q_getTask_after_update:
  "q_getTask (snd (q_updateTask s i u)) j =
     map_option (\<lambda>t. if task_id t = i then apply_updates u t else t) (q_getTask s j)"
  unfolding q_getTask_def q_updateTask_tasks by (rule find_map_upd)

lemma q_updateTask_fst:
  "fst (q_updateTask s i u) = q_getTask (snd (q_updateTask s i u)) i"
  by (simp add: q_updateTask_def Let_def)

lemma set_q_getDependencies:
  "set (q_getDependencies s i) =
     {t \<in> set (tasks s). \<exists>d \<in> set (task_dependencies s). fst d = i \<and> task_id t = snd d}"
  by (auto simp: q_getDependencies_def)

lemma unmet_empty_iff:
  "filter (\<lambda>d. status d \<noteq> completed) (q_getDependencies s i) = [] \<longleftrightarrow>
   (\<forall>d \<in> set (task_dependencies s). fst d = i \<longrightarrow>
      (\<forall>p \<in> set (tasks s). task_id p = snd d \<longrightarrow> status p = completed))"
  by (auto simp: filter_empty_conv set_q_getDependencies)

lemma in_conflicts_iff:
  "x \<in> set (q_getFileOwnershipConflicts s i) \<longleftrightarrow>
   (\<exists>mine \<in> set (task_file_ownerships s). \<exists>other \<in> set (task_file_ownerships s).
      \<exists>u \<in> set (tasks s).
        fo_task_id mine = i \<and> fo_task_id other \<noteq> i \<and> file_pattern mine = file_pattern other \<and>
        task_id u = fo_task_id other \<and> status u = in_progress \<and>
        x = (u, file_pattern other, ownership_type other))"
  unfolding q_getFileOwnershipConflicts_def by auto

lemma conflicts_empty_iff:
  "q_getFileOwnershipConflicts s i = [] \<longleftrightarrow>
   (\<forall>mine \<in> set (task_file_ownerships s). \<forall>other \<in> set (task_file_ownerships s).
      \<forall>u \<in> set (tasks s).
        fo_task_id mine = i \<and> fo_task_id other \<noteq> i \<and> file_pattern other = file_pattern mine \<and>
        task_id u = fo_task_id other \<longrightarrow> status u \<noteq> in_progress)"
proof
  assume e: "q_getFileOwnershipConflicts s i = []"
  show "\<forall>mine \<in> set (task_file_ownerships s). \<forall>other \<in> set (task_file_ownerships s).
      \<forall>u \<in> set (tasks s).
        fo_task_id mine = i \<and> fo_task_id other \<noteq> i \<and> file_pattern other = file_pattern mine \<and>
        task_id u = fo_task_id other \<longrightarrow> status u \<noteq> in_progress"
  proof (intro ballI impI notI)
    fix mine other u
    assume a: "mine \<in> set (task_file_ownerships s)" "other \<in> set (task_file_ownerships s)"
      "u \<in> set (tasks s)"
      "fo_task_id mine = i \<and> fo_task_id other \<noteq> i \<and> file_pattern other = file_pattern mine \<and>
        task_id u = fo_task_id other" "status u = in_progress"
    then have "(u, file_pattern other, ownership_type other) \<in> set (q_getFileOwnershipConflicts s i)"
      unfolding in_conflicts_iff by (intro bexI [of _ mine] bexI [of _ other] bexI [of _ u]) auto
    with e show False by simp
  qed
next
  assume a: "\<forall>mine \<in> set (task_file_ownerships s). \<forall>other \<in> set (task_file_ownerships s).
      \<forall>u \<in> set (tasks s).
        fo_task_id mine = i \<and> fo_task_id other \<noteq> i \<and> file_pattern other = file_pattern mine \<and>
        task_id u = fo_task_id other \<longrightarrow> status u \<noteq> in_progress"
  show "q_getFileOwnershipConflicts s i = []"
  proof (cases "q_getFileOwnershipConflicts s i")
    case Nil
    then show ?thesis .
  next
    case (Cons x xs)
    then have "x \<in> set (q_getFileOwnershipConflicts s i)" by simp
    then obtain mine other u where
      "mine \<in> set (task_file_ownerships s)" "other \<in> set (task_file_ownerships s)"
      "u \<in> set (tasks s)" "fo_task_id mine = i" "fo_task_id other \<noteq> i"
      "file_pattern mine = file_pattern other" "task_id u = fo_task_id other"
      "status u = in_progress"
      unfolding in_conflicts_iff by blast
    with a show ?thesis by metis
  qed
qed

lemma claimed_task_eq:
  "apply_updates (no_updates\<lparr>u_status := Some assigned, u_assigned_to := Some (Some a)\<rparr>) t =
   t\<lparr>status := assigned, assigned_to := Some a\<rparr>"
  by (simp add: apply_updates_def no_updates_def set_field_def)

lemma claimTask_success:
  assumes fresh: "\<forall>r \<in> set (progress_logs s). row_id r \<noteq> uuid_log"
    and t: "q_getTask s i = Some t"
    and p: "status t = pending"
    and d: "filter (\<lambda>d. status d \<noteq> completed) (q_getDependencies s i) = []"
    and c: "q_getFileOwnershipConflicts s i = []"
  shows "\<exists>s'. claimTask s i agent uuid_agent uuid_log db_now =
      (Inr \<lparr>c_success = True,
            c_task = Some (t\<lparr>status := assigned, assigned_to := Some (claim_agent agent uuid_agent)\<rparr>),
            c_error = None\<rparr>, s') \<and>
      tasks s' = map (\<lambda>x. if task_id x = i
          then x\<lparr>status := assigned, assigned_to := Some (claim_agent agent uuid_agent)\<rparr> else x) (tasks s) \<and>
      task_dependencies s' = task_dependencies s \<and>
      task_file_ownerships s' = task_file_ownerships s \<and>
      task_groups s' = task_groups s \<and>
      (\<exists>row. progress_logs s' = progress_logs s @ [row] \<and> row_id row = uuid_log \<and> row_task_id row = i) \<and>
      q_getTask s' i =
        Some (t\<lparr>status := assigned, assigned_to := Some (claim_agent agent uuid_agent)\<rparr>)"
proof -
  let ?a = "claim_agent agent uuid_agent"
  let ?u = "no_updates\<lparr>u_status := Some assigned, u_assigned_to := Some (Some ?a)\<rparr>"
  define s1 where "s1 = snd (q_updateTask s i ?u)"
  let ?l = "\<lparr>li_id = uuid_log, li_task_id = i, li_event = Claimed,
             li_message = ''Task claimed by '' @ ?a, li_metadata = JObj [(''agent_id'', JStr ?a)]\<rparr>"
  from t have ti: "task_id t = i" by (simp add: q_getTask_SomeD)
  have g1: "q_getTask s1 i = Some (t\<lparr>status := assigned, assigned_to := Some ?a\<rparr>)"
    by (simp add: s1_def q_getTask_after_update t ti claimed_task_eq)
  have fresh1: "\<forall>r \<in> set (progress_logs s1). row_id r \<noteq> li_id ?l"
    using fresh by (simp add: s1_def q_updateTask_other_fields)
  have ex1: "q_getTask s1 (li_task_id ?l) \<noteq> None" using g1 by simp
  note log = q_addProgressLog_ok [OF fresh1 ex1, of db_now]
  have upd: "q_updateTask s i ?u = (Some (t\<lparr>status := assigned, assigned_to := Some ?a\<rparr>), s1)"
    using g1 q_updateTask_fst [of s i ?u] by (simp add: prod_eq_iff s1_def)
  have tm: "tasks s1 = map (\<lambda>x. if task_id x = i
          then x\<lparr>status := assigned, assigned_to := Some ?a\<rparr> else x) (tasks s)"
    by (simp add: s1_def q_updateTask_tasks claimed_task_eq)
  have others: "task_dependencies s1 = task_dependencies s"
    "task_file_ownerships s1 = task_file_ownerships s" "task_groups s1 = task_groups s"
    "progress_logs s1 = progress_logs s"
    by (simp_all add: s1_def q_updateTask_other_fields)
  have "claimTask s i agent uuid_agent uuid_log db_now =
      (Inr \<lparr>c_success = True,
            c_task = Some (t\<lparr>status := assigned, assigned_to := Some ?a\<rparr>),
            c_error = None\<rparr>,
       s1\<lparr>progress_logs := progress_logs s1 @
          [\<lparr>row_id = uuid_log, row_task_id = i, row_timestamp = db_now,
            row_event = Claimed, row_message = ''Task claimed by '' @ ?a,
            row_metadata = JSON_stringify (JObj [(''agent_id'', JStr ?a)])\<rparr>]\<rparr>)"
    unfolding claimTask_def
    using t p d c ti log
    by (simp add: Let_def upd claim_agent_def [symmetric])
  then show ?thesis using tm others g1 by (simp add: q_getTask_def)
qed

lemma claimTask_not_found:
  "q_getTask s i = None \<Longrightarrow>
   claimTask s i agent uuid_agent uuid_log db_now =
     (Inr \<lparr>c_success = False, c_task = None, c_error = Some (''Task not found: '' @ i)\<rparr>, s)"
  by (simp add: claimTask_def)

lemma claimTask_not_pending:
  "q_getTask s i = Some t \<Longrightarrow> status t \<noteq> pending \<Longrightarrow>
   \<exists>e. claimTask s i agent uuid_agent uuid_log db_now =
     (Inr \<lparr>c_success = False, c_task = Some t, c_error = Some e\<rparr>, s)"
  by (simp add: claimTask_def)

lemma claimTask_unmet:
  "q_getTask s i = Some t \<Longrightarrow> status t = pending \<Longrightarrow>
   filter (\<lambda>d. status d \<noteq> completed) (q_getDependencies s i) \<noteq> [] \<Longrightarrow>
   \<exists>e. claimTask s i agent uuid_agent uuid_log db_now =
     (Inr \<lparr>c_success = False, c_task = Some t, c_error = Some e\<rparr>, s)"
  by (frule q_getTask_SomeD) (simp add: claimTask_def Let_def)

lemma claimTask_conflict:
  "q_getTask s i = Some t \<Longrightarrow> status t = pending \<Longrightarrow>
   filter (\<lambda>d. status d \<noteq> completed) (q_getDependencies s i) = [] \<Longrightarrow>
   q_getFileOwnershipConflicts s i \<noteq> [] \<Longrightarrow>
   \<exists>e. claimTask s i agent uuid_agent uuid_log db_now =
     (Inr \<lparr>c_success = False, c_task = Some t, c_error = Some e\<rparr>, s)"
  by (frule q_getTask_SomeD) (simp add: claimTask_def Let_def)

text \<open>
  Claim C1. Given a fresh identifier for the log entry, \<open>claimTask\<close> returns a structured
  result, and \<open>success\<close> holds if and only if the task exists, its status is
  \<open>pending\<close>, every prerequisite task has status \<open>completed\<close>, and no other task
  with status \<open>in_progress\<close> holds a file pattern identical to one of the task's
  patterns. When a precondition fails the result carries an error message and the store,
  and with it every field of the task, is unchanged. On success the task has status
  \<open>assigned\<close> and \<open>assigned_to\<close> is the agent.
\<close>

theorem claimTask_spec:
  assumes fresh: "\<forall>r \<in> set (progress_logs s). row_id r \<noteq> uuid_log"
  shows "\<exists>out s'. claimTask s i agent uuid_agent uuid_log db_now = (Inr out, s') \<and>
    (c_success out \<longleftrightarrow>
       (\<exists>t. q_getTask s i = Some t \<and> status t = pending \<and>
          (\<forall>d \<in> set (task_dependencies s). fst d = i \<longrightarrow>
             (\<forall>p \<in> set (tasks s). task_id p = snd d \<longrightarrow> status p = completed)) \<and>
          (\<forall>mine \<in> set (task_file_ownerships s). \<forall>other \<in> set (task_file_ownerships s).
             \<forall>u \<in> set (tasks s).
               fo_task_id mine = i \<and> fo_task_id other \<noteq> i \<and>
               file_pattern other = file_pattern mine \<and> task_id u = fo_task_id other \<longrightarrow>
               status u \<noteq> in_progress))) \<and>
    (\<not> c_success out \<longrightarrow> s' = s \<and> c_error out \<noteq> None) \<and>
    (c_success out \<longrightarrow>
       (\<exists>t. q_getTask s i = Some t \<and>
          q_getTask s' i =
            Some (t\<lparr>status := assigned, assigned_to := Some (claim_agent agent uuid_agent)\<rparr>) \<and>
          c_task out = q_getTask s' i \<and> c_error out = None))"
proof (cases "q_getTask s i")
  case None
  from claimTask_not_found [OF None] show ?thesis using None by simp
next
  case (Some t)
  note t = Some
  show ?thesis
  proof (cases "status t = pending")
    case False
    from claimTask_not_pending [OF t False, of agent uuid_agent uuid_log db_now]
    obtain e where "claimTask s i agent uuid_agent uuid_log db_now =
      (Inr \<lparr>c_success = False, c_task = Some t, c_error = Some e\<rparr>, s)" by blast
    then show ?thesis using t False by simp
  next
    case True
    note p = True
    show ?thesis
    proof (cases "filter (\<lambda>d. status d \<noteq> completed) (q_getDependencies s i) = []")
      case False
      from claimTask_unmet [OF t p False, of agent uuid_agent uuid_log db_now]
      obtain e where "claimTask s i agent uuid_agent uuid_log db_now =
        (Inr \<lparr>c_success = False, c_task = Some t, c_error = Some e\<rparr>, s)" by blast
      moreover from False have "\<not> (\<forall>d \<in> set (task_dependencies s). fst d = i \<longrightarrow>
             (\<forall>p \<in> set (tasks s). task_id p = snd d \<longrightarrow> status p = completed))"
        unfolding unmet_empty_iff .
      ultimately show ?thesis by simp
    next
      case True
      note d = True
      show ?thesis
      proof (cases "q_getFileOwnershipConflicts s i = []")
        case False
        from claimTask_conflict [OF t p d False, of agent uuid_agent uuid_log db_now]
        obtain e where "claimTask s i agent uuid_agent uuid_log db_now =
          (Inr \<lparr>c_success = False, c_task = Some t, c_error = Some e\<rparr>, s)" by blast
        moreover from False have "\<not> (\<forall>mine \<in> set (task_file_ownerships s).
             \<forall>other \<in> set (task_file_ownerships s). \<forall>u \<in> set (tasks s).
               fo_task_id mine = i \<and> fo_task_id other \<noteq> i \<and>
               file_pattern other = file_pattern mine \<and> task_id u = fo_task_id other \<longrightarrow>
               status u \<noteq> in_progress)"
          unfolding conflicts_empty_iff .
        ultimately show ?thesis by simp
      next
        case True
        let ?t' = "t\<lparr>status := assigned, assigned_to := Some (claim_agent agent uuid_agent)\<rparr>"
        from claimTask_success [OF fresh t p d True, of agent uuid_agent db_now]
        obtain s' where c: "claimTask s i agent uuid_agent uuid_log db_now =
            (Inr \<lparr>c_success = True, c_task = Some ?t', c_error = None\<rparr>, s')"
          and g: "q_getTask s' i = Some ?t'"
          by blast
        have d': "\<forall>d \<in> set (task_dependencies s). fst d = i \<longrightarrow>
             (\<forall>p \<in> set (tasks s). task_id p = snd d \<longrightarrow> status p = completed)"
          using d unfolding unmet_empty_iff .
        have c': "\<forall>mine \<in> set (task_file_ownerships s).
             \<forall>other \<in> set (task_file_ownerships s). \<forall>u \<in> set (tasks s).
               fo_task_id mine = i \<and> fo_task_id other \<noteq> i \<and>
               file_pattern other = file_pattern mine \<and> task_id u = fo_task_id other \<longrightarrow>
               status u \<noteq> in_progress"
          using True unfolding conflicts_empty_iff .
        show ?thesis using c g t p d' c' by simp
      qed
    qed
  qed
qed

text \<open>
  Claim C9. The conflict check of \<open>claimTask\<close> ignores the ownership type: for a pending
  task whose prerequisites are all completed, if another task with status
  \<open>in_progress\<close> holds a file pattern identical to one of the task's patterns, the
  claim fails and the store is unchanged, whatever the two ownership types are; when both
  are \<open>shared\<close> the Ownership engine's \<open>findConflicts\<close> reports no conflict for the
  same pair.
\<close>

theorem claimTask_conflict_ignores_type:
  assumes "q_getTask s i = Some t" and "status t = pending"
    and "\<forall>d \<in> set (q_getDependencies s i). status d = completed"
    and "mine \<in> set (task_file_ownerships s)" and "fo_task_id mine = i"
    and "other \<in> set (task_file_ownerships s)" and "fo_task_id other \<noteq> i"
    and "file_pattern other = file_pattern mine"
    and "u \<in> set (tasks s)" and "task_id u = fo_task_id other" and "status u = in_progress"
  shows "(\<exists>out. claimTask s i agent uuid_agent uuid_log db_now = (Inr out, s) \<and>
            \<not> c_success out \<and> c_error out \<noteq> None) \<and>
         (ownership_type mine = shared \<and> ownership_type other = shared \<longrightarrow>
            findConflicts [mine] [(u, [other])] = [])"
proof
  have d: "filter (\<lambda>d. status d \<noteq> completed) (q_getDependencies s i) = []"
    using assms(3) by (simp add: filter_empty_conv)
  have "(u, file_pattern other, ownership_type other) \<in> set (q_getFileOwnershipConflicts s i)"
    unfolding in_conflicts_iff
    using assms(4-11) by (intro bexI [of _ mine] bexI [of _ other] bexI [of _ u]) auto
  then have c: "q_getFileOwnershipConflicts s i \<noteq> []" by auto
  from claimTask_conflict [OF assms(1) assms(2) d c, of agent uuid_agent uuid_log db_now]
  show "\<exists>out. claimTask s i agent uuid_agent uuid_log db_now = (Inr out, s) \<and>
            \<not> c_success out \<and> c_error out \<noteq> None"
    by auto
next
  show "ownership_type mine = shared \<and> ownership_type other = shared \<longrightarrow>
            findConflicts [mine] [(u, [other])] = []"
    by (simp add: findConflicts_def)
qed

text \<open>
  Claim C7. When \<open>startTask\<close> is invoked on a task with status \<open>assigned\<close> and the
  Git driver fails to create the worktree, the driver's error is the result and the store
  is returned as it was: the task record is unchanged (status, branch name, worktree path,
  start time) and no progress-log entry is written.
\<close>

theorem startTask_git_failure:
  assumes "q_getTask s i = Some t" and "status t = assigned"
    and "createWorktree git
           (path_resolve (repoRoot git) ''.worktrees''
              (''task-'' @ int_str (sequence t) @ ''-'' @ take 30 (slugify (title t))))
           (''task/task-'' @ int_str (sequence t) @ ''-'' @ take 30 (slugify (title t))) = Some msg"
  shows "startTask git slugify s i now uuid_log db_now = (Inl (Error msg), s)"
  using assms by (simp add: startTask_def Let_def)

theorem claimTask_spec_witness:
  "progress_logs claim_example = [] \<and>
   (\<exists>out s'. claimTask claim_example ''b'' (Some ''agent-1'') ''u1'' ''log1'' ''2026-01-02'' = (Inr out, s') \<and>
      c_success out \<and> map_option status (q_getTask s' ''b'') = Some assigned \<and>
      map_option assigned_to (q_getTask s' ''b'') = Some (Some ''agent-1''))"
proof -
  have l: "progress_logs claim_example = []" by (simp add: claim_example_def)
  then have fresh: "\<forall>r \<in> set (progress_logs claim_example). row_id r \<noteq> ''log1''" by simp
  have g: "q_getTask claim_example ''b'' = Some (example_task ''b'' 2 pending)"
    by (simp add: q_getTask_def claim_example_def example_task_def)
  from claimTask_spec [OF fresh, of "''b''" "Some ''agent-1''" "''u1''" "''2026-01-02''"]
  obtain out s' where
    c: "claimTask claim_example ''b'' (Some ''agent-1'') ''u1'' ''log1'' ''2026-01-02'' = (Inr out, s')"
    and iff: "c_success out \<longleftrightarrow>
       (\<exists>t. q_getTask claim_example ''b'' = Some t \<and> status t = pending \<and>
          (\<forall>d \<in> set (task_dependencies claim_example). fst d = ''b'' \<longrightarrow>
             (\<forall>p \<in> set (tasks claim_example). task_id p = snd d \<longrightarrow> status p = completed)) \<and>
          (\<forall>mine \<in> set (task_file_ownerships claim_example).
             \<forall>other \<in> set (task_file_ownerships claim_example).
             \<forall>u \<in> set (tasks claim_example).
               fo_task_id mine = ''b'' \<and> fo_task_id other \<noteq> ''b'' \<and>
               file_pattern other = file_pattern mine \<and> task_id u = fo_task_id other \<longrightarrow>
               status u \<noteq> in_progress))"
    and succ: "c_success out \<longrightarrow>
       (\<exists>t. q_getTask claim_example ''b'' = Some t \<and>
          q_getTask s' ''b'' =
            Some (t\<lparr>status := assigned, assigned_to := Some (claim_agent (Some ''agent-1'') ''u1'')\<rparr>) \<and>
          c_task out = q_getTask s' ''b'' \<and> c_error out = None)"
    by blast
  have ok: "c_success out"
    unfolding iff g by (simp add: claim_example_def example_task_def)
  with succ have "map_option status (q_getTask s' ''b'') = Some assigned"
    and "map_option assigned_to (q_getTask s' ''b'') = Some (Some ''agent-1'')"
    by (auto simp: claim_agent_def)
  with l c ok show ?thesis by blast
qed

theorem claimTask_conflict_ignores_type_witness:
  "q_getTask conflict_example ''b'' = Some (example_task ''b'' 2 pending) \<and>
   status (example_task ''c'' 3 in_progress) = in_progress \<and>
   (\<exists>out. claimTask conflict_example ''b'' (Some ''agent-1'') ''u1'' ''log1'' ''2026-01-02'' =
            (Inr out, conflict_example) \<and> \<not> c_success out) \<and>
   findConflicts
     [\<lparr>fo_task_id = ''b'', file_pattern = ''src/db/**'', ownership_type = shared\<rparr>]
     [(example_task ''c'' 3 in_progress,
       [\<lparr>fo_task_id = ''c'', file_pattern = ''src/db/**'', ownership_type = shared\<rparr>])] = []"
proof -
  let ?mine = "\<lparr>fo_task_id = ''b'', file_pattern = ''src/db/**'', ownership_type = shared\<rparr>"
  let ?other = "\<lparr>fo_task_id = ''c'', file_pattern = ''src/db/**'', ownership_type = shared\<rparr>"
  let ?u = "example_task ''c'' 3 in_progress"
  have 1: "q_getTask conflict_example ''b'' = Some (example_task ''b'' 2 pending)"
    by (simp add: q_getTask_def conflict_example_def example_task_def)
  have 2: "status (example_task ''b'' 2 pending) = pending" by (simp add: example_task_def)
  have 3: "\<forall>d \<in> set (q_getDependencies conflict_example ''b''). status d = completed"
    by (simp add: q_getDependencies_def conflict_example_def example_task_def)
  have 4: "?mine \<in> set (task_file_ownerships conflict_example)" "fo_task_id ?mine = ''b''"
    "?other \<in> set (task_file_ownerships conflict_example)" "fo_task_id ?other \<noteq> ''b''"
    "file_pattern ?other = file_pattern ?mine"
    by (simp_all add: conflict_example_def)
  have 5: "?u \<in> set (tasks conflict_example)" "task_id ?u = fo_task_id ?other"
    "status ?u = in_progress"
    by (simp_all add: conflict_example_def example_task_def)
  note th = claimTask_conflict_ignores_type [OF 1 2 3 4 5,
      of "Some ''agent-1''" "''u1''" "''log1''" "''2026-01-02''"]
  from th have a: "\<exists>out. claimTask conflict_example ''b'' (Some ''agent-1'') ''u1'' ''log1'' ''2026-01-02'' =
            (Inr out, conflict_example) \<and> \<not> c_success out"
    by blast
  from th have b: "findConflicts [?mine] [(?u, [?other])] = []" by simp
  show ?thesis using 1 5(3) a b by simp
qed

theorem startTask_git_failure_witness:
  "q_getTask start_example ''a'' = Some ((example_task ''a'' 1 assigned)\<lparr>assigned_to := Some ''agent-1''\<rparr>) \<and>
   startTask failing_git id start_example ''a'' ''2026-01-02T00:00:00Z'' ''log1'' ''2026-01-02'' =
     (Inl (Error ''Failed to create worktree''), start_example)"
proof -
  let ?t = "(example_task ''a'' 1 assigned)\<lparr>assigned_to := Some ''agent-1''\<rparr>"
  have 1: "q_getTask start_example ''a'' = Some ?t"
    by (simp add: q_getTask_def start_example_def example_task_def)
  have 2: "status ?t = assigned" by (simp add: example_task_def)
  have 3: "createWorktree failing_git
           (path_resolve (repoRoot failing_git) ''.worktrees''
              (''task-'' @ int_str (sequence ?t) @ ''-'' @ take 30 (id (title ?t))))
           (''task/task-'' @ int_str (sequence ?t) @ ''-'' @ take 30 (id (title ?t))) =
         Some ''Failed to create worktree''"
    by (simp add: failing_git_def)
  from startTask_git_failure [where slugify = id and git = failing_git, OF 1 2 3] 1
  show ?thesis by simp
qed

section \<open>The effect of the operations on the task table\<close>

lemma find_map_id_preserving:
  assumes "\<And>x. task_id (f x) = task_id x"
  shows "find (\<lambda>t. task_id t = j) (map f ts) = map_option f (find (\<lambda>t. task_id t = j) ts)"
  by (induction ts) (auto simp: assms)

lemma q_getTask_map:
  assumes "tasks s' = map f (tasks s)" and "\<And>x. task_id (f x) = task_id x"
  shows "q_getTask s' j = map_option f (q_getTask s j)"
  unfolding q_getTask_def assms(1) by (rule find_map_id_preserving) (rule assms(2))

lemma q_addProgressLog_tasks [simp]:
  "tasks (snd (q_addProgressLog s db_now l)) = tasks s"
  by (simp add: q_addProgressLog_def Let_def)

lemma q_addProgressLog_tables [simp]:
  "task_groups (snd (q_addProgressLog s db_now l)) = task_groups s"
  "task_dependencies (snd (q_addProgressLog s db_now l)) = task_dependencies s"
  "task_file_ownerships (snd (q_addProgressLog s db_now l)) = task_file_ownerships s"
  by (simp_all add: q_addProgressLog_def Let_def)

lemma find_distinct_id:
  assumes "distinct (map task_id ts)" and "x \<in> set ts"
  shows "find (\<lambda>t. task_id t = task_id x) ts = Some x"
  using assms by (induction ts) (auto simp: image_iff)

lemma find_in_sublist:
  assumes "distinct (map task_id ts)" and "set us \<subseteq> set ts"
    and "find (\<lambda>t. task_id t = i) us = Some y" and "x \<in> set ts" and "task_id x = i"
  shows "y = x"
proof -
  from assms(3) have "y \<in> set us" "task_id y = i"
    by (auto simp: find_Some_iff in_set_conv_nth)
  with assms(2) have "y \<in> set ts" by auto
  with assms(1,4,5) \<open>task_id y = i\<close> show ?thesis
    by (metis distinct_map inj_onD)
qed

lemma pending_update_eq:
  "apply_updates (no_updates\<lparr>u_status := Some pending\<rparr>) x = x\<lparr>status := pending\<rparr>"
  by (simp add: apply_updates_def no_updates_def set_field_def)

lemma unblock_loop_tasks:
  "tasks (unblock_loop allGroupTasks ids s) =
     map (unblock_row (blocked_ids allGroupTasks ids)) (tasks s)"
proof (induction ids arbitrary: s)
  case Nil
  show ?case by (simp add: blocked_ids_def unblock_row_def map_idI)
next
  case (Cons i ids)
  show ?case
  proof (cases "\<exists>y. find (\<lambda>t. task_id t = i) allGroupTasks = Some y \<and> status y = blocked")
    case False
    then have b: "blocked_ids allGroupTasks (i # ids) = blocked_ids allGroupTasks ids"
      by (auto simp: blocked_ids_def)
    from False have "unblock_loop allGroupTasks (i # ids) s = unblock_loop allGroupTasks ids s"
      by (cases "find (\<lambda>t. task_id t = i) allGroupTasks") auto
    then show ?thesis using Cons.IH b by simp
  next
    case True
    then have b: "blocked_ids allGroupTasks (i # ids) = insert i (blocked_ids allGroupTasks ids)"
      by (auto simp: blocked_ids_def)
    let ?s1 = "snd (q_updateTask s i (no_updates\<lparr>u_status := Some pending\<rparr>))"
    from True have "unblock_loop allGroupTasks (i # ids) s = unblock_loop allGroupTasks ids ?s1"
      by auto
    then have "tasks (unblock_loop allGroupTasks (i # ids) s) =
        map (unblock_row (blocked_ids allGroupTasks ids)) (tasks ?s1)"
      using Cons.IH by simp
    also have "\<dots> = map (unblock_row (insert i (blocked_ids allGroupTasks ids))) (tasks s)"
      by (simp add: q_updateTask_tasks pending_update_eq unblock_row_def)
    finally show ?thesis using b by simp
  qed
qed

lemma unblock_loop_tables [simp]:
  "task_groups (unblock_loop a ids s) = task_groups s"
  "task_dependencies (unblock_loop a ids s) = task_dependencies s"
  "task_file_ownerships (unblock_loop a ids s) = task_file_ownerships s"
  "progress_logs (unblock_loop a ids s) = progress_logs s"
  by (induction ids arbitrary: s; simp add: q_updateTask_other_fields split: option.splits)+

lemma unblock_row_id [simp]: "task_id (unblock_row B x) = task_id x"
  by (simp add: unblock_row_def)

lemma set_q_listTasks:
  "set (q_listTasks s g sts) \<subseteq> set (tasks s)"
  by (auto simp: q_listTasks_def)

lemma set_q_listTasks_group:
  "g \<noteq> [] \<Longrightarrow> set (q_listTasks s (Some g) None) = {x \<in> set (tasks s). group_id x = g}"
  by (auto simp: q_listTasks_def js_truthy_str_def)

lemma row_rel_same_tasks: "(\<And>x. R x x) \<Longrightarrow> tasks s' = tasks s \<Longrightarrow> row_rel R s s'"
  by (simp add: row_rel_def list_all2_same)

lemma row_rel_trans:
  assumes "row_rel R s s'" and "row_rel R s' s''" and "\<And>x y z. R x y \<Longrightarrow> R y z \<Longrightarrow> R x z"
  shows "row_rel R s s''"
  using assms(1,2) unfolding row_rel_def
  by (rule list_all2_trans [rotated]) (use assms(3) in auto)

lemma row_rel_ids: "row_rel R s s' \<Longrightarrow> map task_id (tasks s') = map task_id (tasks s)"
  unfolding row_rel_def by (induction rule: list_all2_induct) auto

lemma list_all2_find:
  "list_all2 (\<lambda>x y. task_id y = task_id x \<and> R x y) xs ys \<Longrightarrow>
   find (\<lambda>t. task_id t = j) xs = Some x \<Longrightarrow>
   \<exists>y. find (\<lambda>t. task_id t = j) ys = Some y \<and> R x y"
  by (induction arbitrary: x rule: list_all2_induct) (auto split: if_splits)

lemma row_rel_getTask:
  "row_rel R s s' \<Longrightarrow> q_getTask s j = Some x \<Longrightarrow> \<exists>y. q_getTask s' j = Some y \<and> R x y"
  unfolding row_rel_def q_getTask_def by (rule list_all2_find)

lemma row_rel_map:
  assumes "\<And>x. x \<in> set (tasks s) \<Longrightarrow> task_id (f x) = task_id x \<and> R x (f x)"
    and "tasks s' = map f (tasks s)"
  shows "row_rel R s s'"
  unfolding row_rel_def assms(2) list_all2_map2 using assms(1)
  by (simp add: list_all2_same)

lemma distinct_getTask_iff:
  assumes "distinct (map task_id (tasks s))" and "q_getTask s i = Some t" and "x \<in> set (tasks s)"
  shows "task_id x = i \<longleftrightarrow> x = t"
proof
  assume "task_id x = i"
  from q_getTask_SomeD [OF assms(2)] have "task_id t = i" "t \<in> set (tasks s)" by auto
  with assms(1,3) \<open>task_id x = i\<close> show "x = t" by (metis distinct_map inj_onD)
next
  assume "x = t"
  with q_getTask_SomeD [OF assms(2)] show "task_id x = i" by simp
qed

lemma q_updateTask_rel:
  assumes d: "distinct (map task_id (tasks s))" and t: "q_getTask s i = Some t"
    and r: "R t (apply_updates u t)" and refl: "\<And>x. R x x"
  shows "row_rel R s (snd (q_updateTask s i u))"
proof (rule row_rel_map [where f = "\<lambda>x. if task_id x = i then apply_updates u x else x"])
  fix x assume "x \<in> set (tasks s)"
  with distinct_getTask_iff [OF d t] have "task_id x = i \<longleftrightarrow> x = t" by simp
  then show "task_id (if task_id x = i then apply_updates u x else x) = task_id x \<and>
        R x (if task_id x = i then apply_updates u x else x)"
    using r refl by auto
next
  show "tasks (snd (q_updateTask s i u)) =
      map (\<lambda>x. if task_id x = i then apply_updates u x else x) (tasks s)"
    by (rule q_updateTask_tasks)
qed

lemma q_updateTask_rel_missing:
  assumes "q_getTask s i = None" and "\<And>x. R x x"
  shows "row_rel R s (snd (q_updateTask s i u))"
proof (rule row_rel_map [where f = "\<lambda>x. if task_id x = i then apply_updates u x else x"])
  fix x assume "x \<in> set (tasks s)"
  with assms(1) have "task_id x \<noteq> i" by (auto simp: q_getTask_def find_None_iff)
  then show "task_id (if task_id x = i then apply_updates u x else x) = task_id x \<and>
        R x (if task_id x = i then apply_updates u x else x)"
    using assms(2) by simp
next
  show "tasks (snd (q_updateTask s i u)) =
      map (\<lambda>x. if task_id x = i then apply_updates u x else x) (tasks s)"
    by (rule q_updateTask_tasks)
qed

lemma unblock_loop_rel:
  assumes d: "distinct (map task_id (tasks s))" and sub: "set allGroupTasks \<subseteq> set (tasks s)"
    and r: "\<And>x. status x = blocked \<Longrightarrow> R x (x\<lparr>status := pending\<rparr>)" and refl: "\<And>x. R x x"
  shows "row_rel R s (unblock_loop allGroupTasks ids s)"
proof (rule row_rel_map [where f = "unblock_row (blocked_ids allGroupTasks ids)"])
  fix x assume x: "x \<in> set (tasks s)"
  show "task_id (unblock_row (blocked_ids allGroupTasks ids) x) = task_id x \<and>
        R x (unblock_row (blocked_ids allGroupTasks ids) x)"
  proof (cases "task_id x \<in> blocked_ids allGroupTasks ids")
    case False
    then show ?thesis using refl by (simp add: unblock_row_def)
  next
    case True
    then obtain y where y: "find (\<lambda>t. task_id t = task_id x) allGroupTasks = Some y"
      and b: "status y = blocked"
      by (auto simp: blocked_ids_def)
    from find_in_sublist [OF d sub y x] have "y = x" by simp
    with b True show ?thesis using r by (simp add: unblock_row_def)
  qed
next
  show "tasks (unblock_loop allGroupTasks ids s) =
      map (unblock_row (blocked_ids allGroupTasks ids)) (tasks s)"
    by (rule unblock_loop_tasks)
qed

lemma snd_log_case [simp]:
  "snd (case r of (Inl e, s2) \<Rightarrow> (Inl e, s2) | (Inr l, s2) \<Rightarrow> (Inr (f l s2), s2)) = snd r"
  by (cases r; cases "fst r") auto

lemma log_rel:
  assumes "row_rel R s s1" and "\<And>x. R x x"
  shows "row_rel R s (snd (q_addProgressLog s1 db_now l))"
  using assms(1) unfolding row_rel_def by simp

lemma snd_log_case2 [simp]:
  "snd (case fst r of Inl e \<Rightarrow> (Inl e, snd r) | Inr l \<Rightarrow> (g l, snd r)) = snd r"
  by (cases "fst r") auto

lemma claimTask_store:
  "snd (claimTask s i agent uuid_agent uuid_log db_now) = s \<or>
   (\<exists>t l. q_getTask s i = Some t \<and> status t = pending \<and>
      snd (claimTask s i agent uuid_agent uuid_log db_now) =
        snd (q_addProgressLog
              (snd (q_updateTask s i (no_updates\<lparr>u_status := Some assigned,
                     u_assigned_to := Some (Some (claim_agent agent uuid_agent))\<rparr>))) db_now l))"
proof (cases "q_getTask s i")
  case None
  then show ?thesis by (simp add: claimTask_def)
next
  case (Some t)
  then have ti: "task_id t = i" by (simp add: q_getTask_SomeD)
  show ?thesis
  proof (cases "status t = pending \<and>
      filter (\<lambda>d. status d \<noteq> completed) (q_getDependencies s i) = [] \<and>
      q_getFileOwnershipConflicts s i = []")
    case False
    then have "snd (claimTask s i agent uuid_agent uuid_log db_now) = s"
      using Some ti by (auto simp: claimTask_def Let_def)
    then show ?thesis ..
  next
    case True
    then have "\<exists>l. snd (claimTask s i agent uuid_agent uuid_log db_now) =
        snd (q_addProgressLog
              (snd (q_updateTask s i (no_updates\<lparr>u_status := Some assigned,
                     u_assigned_to := Some (Some (claim_agent agent uuid_agent))\<rparr>))) db_now l)"
      using Some ti
      by (auto simp: claimTask_def Let_def case_prod_beta claim_agent_def [symmetric])
    with True Some show ?thesis by blast
  qed
qed

lemma claimTask_rel:
  assumes d: "distinct (map task_id (tasks s))" and refl: "\<And>x. R x x"
    and r: "\<And>t a. status t = pending \<Longrightarrow> R t (t\<lparr>status := assigned, assigned_to := Some a\<rparr>)"
  shows "row_rel R s (snd (claimTask s i agent uuid_agent uuid_log db_now))"
  using claimTask_store [of s i agent uuid_agent uuid_log db_now]
proof (elim disjE exE conjE)
  assume "snd (claimTask s i agent uuid_agent uuid_log db_now) = s"
  then show ?thesis using refl by (simp add: row_rel_same_tasks)
next
  fix t l
  assume t: "q_getTask s i = Some t" and p: "status t = pending"
    and e: "snd (claimTask s i agent uuid_agent uuid_log db_now) =
        snd (q_addProgressLog
              (snd (q_updateTask s i (no_updates\<lparr>u_status := Some assigned,
                     u_assigned_to := Some (Some (claim_agent agent uuid_agent))\<rparr>))) db_now l)"
  have "row_rel R s (snd (q_updateTask s i (no_updates\<lparr>u_status := Some assigned,
                     u_assigned_to := Some (Some (claim_agent agent uuid_agent))\<rparr>)))"
    by (rule q_updateTask_rel [OF d t _ refl]) (simp add: claimed_task_eq r [OF p])
  then show ?thesis unfolding e by (rule log_rel) (rule refl)
qed

lemma started_task_eq:
  "apply_updates (no_updates\<lparr>u_status := Some in_progress, u_branch_name := Some (Some b),
      u_worktree_path := Some (Some w), u_started_at := Some (Some n)\<rparr>) t =
   t\<lparr>status := in_progress, branch_name := Some b, worktree_path := Some w, started_at := Some n\<rparr>"
  by (simp add: apply_updates_def no_updates_def set_field_def)

lemma progress_task_eq:
  "apply_updates (no_updates\<lparr>u_progress := Some v, u_progress_note := Some (Some note)\<rparr>) t =
   t\<lparr>progress := v, progress_note := Some note\<rparr>"
  by (simp add: apply_updates_def no_updates_def set_field_def)

lemma completed_task_eq:
  "apply_updates (no_updates\<lparr>u_status := Some in_review, u_completed_at := Some (Some n),
      u_progress := Some 100, u_progress_note := Some (Some summary)\<rparr>) t =
   t\<lparr>status := in_review, progress := 100, progress_note := Some summary, completed_at := Some n\<rparr>"
  by (simp add: apply_updates_def no_updates_def set_field_def)

lemma merged_task_eq:
  "apply_updates (no_updates\<lparr>u_status := Some completed, u_merged_at := Some (Some n)\<rparr>) t =
   t\<lparr>status := completed, merged_at := Some n\<rparr>"
  by (simp add: apply_updates_def no_updates_def set_field_def)

lemma failed_task_eq:
  "apply_updates (no_updates\<lparr>u_status := Some failed\<rparr>) t = t\<lparr>status := failed\<rparr>"
  by (simp add: apply_updates_def no_updates_def set_field_def)

lemma startTask_store:
  "snd (startTask git slugify s i now uuid_log db_now) = s \<or>
   (\<exists>t b w. q_getTask s i = Some t \<and> status t = assigned \<and>
      tasks (snd (startTask git slugify s i now uuid_log db_now)) =
        tasks (snd (q_updateTask s i (no_updates\<lparr>u_status := Some in_progress,
                     u_branch_name := Some (Some b), u_worktree_path := Some (Some w),
                     u_started_at := Some (Some now)\<rparr>))))"
proof (cases "q_getTask s i")
  case None
  then show ?thesis by (simp add: startTask_def)
next
  case (Some t)
  then have ti: "task_id t = i" by (simp add: q_getTask_SomeD)
  let ?b = "''task/task-'' @ int_str (sequence t) @ ''-'' @ take 30 (slugify (title t))"
  let ?w = "path_resolve (repoRoot git) ''.worktrees''
              (''task-'' @ int_str (sequence t) @ ''-'' @ take 30 (slugify (title t)))"
  show ?thesis
  proof (cases "status t = assigned \<and> createWorktree git ?w ?b = None")
    case False
    then have "snd (startTask git slugify s i now uuid_log db_now) = s"
      using Some ti by (auto simp: startTask_def Let_def split: option.splits)
    then show ?thesis ..
  next
    case True
    then have "tasks (snd (startTask git slugify s i now uuid_log db_now)) =
        tasks (snd (q_updateTask s i (no_updates\<lparr>u_status := Some in_progress,
                     u_branch_name := Some (Some ?b), u_worktree_path := Some (Some ?w),
                     u_started_at := Some (Some now)\<rparr>)))"
      using Some ti
      by (simp add: startTask_def Let_def case_prod_beta split: sum.splits)
    with True Some show ?thesis by blast
  qed
qed

lemma updateProgress_store:
  "(q_getTask s i = None \<and> snd (updateProgress git s i v note files uuid_log db_now) = s) \<or>
   (\<exists>t l. q_getTask s i = Some t \<and>
      snd (updateProgress git s i v note files uuid_log db_now) =
        snd (q_addProgressLog
              (snd (q_updateTask s i (no_updates\<lparr>u_progress := Some v,
                     u_progress_note := Some (Some note)\<rparr>))) db_now l))"
proof (cases "q_getTask s i")
  case None
  then show ?thesis by (simp add: updateProgress_def)
next
  case (Some t)
  then have ti: "task_id t = i" by (simp add: q_getTask_SomeD)
  have "\<exists>l. snd (updateProgress git s i v note files uuid_log db_now) =
        snd (q_addProgressLog
              (snd (q_updateTask s i (no_updates\<lparr>u_progress := Some v,
                     u_progress_note := Some (Some note)\<rparr>))) db_now l)"
    using Some ti by (auto simp: updateProgress_def Let_def case_prod_beta)
  with Some show ?thesis by blast
qed

lemma cleanupTask_store:
  "(q_getTask s i = None \<and> snd (cleanupTask git s i reason uuid_log db_now) = s) \<or>
   (\<exists>t l. q_getTask s i = Some t \<and>
      snd (cleanupTask git s i reason uuid_log db_now) =
        snd (q_addProgressLog
              (snd (q_updateTask s i (no_updates\<lparr>u_status := Some failed\<rparr>))) db_now l))"
proof (cases "q_getTask s i")
  case None
  then show ?thesis by (simp add: cleanupTask_def)
next
  case (Some t)
  then have ti: "task_id t = i" by (simp add: q_getTask_SomeD)
  have "\<exists>l. snd (cleanupTask git s i reason uuid_log db_now) =
        snd (q_addProgressLog
              (snd (q_updateTask s i (no_updates\<lparr>u_status := Some failed\<rparr>))) db_now l)"
    using Some ti by (auto simp: cleanupTask_def Let_def case_prod_beta)
  with Some show ?thesis by blast
qed

lemma completeTask_store:
  "snd (completeTask s i summary files now uuid_log db_now) = s \<or>
   (\<exists>t allGroupTasks ids. q_getTask s i = Some t \<and> status t = in_progress \<and>
      set allGroupTasks \<subseteq> set (tasks (snd (q_updateTask s i
         (no_updates\<lparr>u_status := Some in_review, u_completed_at := Some (Some now),
            u_progress := Some 100, u_progress_note := Some (Some summary)\<rparr>)))) \<and>
      tasks (snd (completeTask s i summary files now uuid_log db_now)) =
        tasks (unblock_loop allGroupTasks ids (snd (q_updateTask s i
                 (no_updates\<lparr>u_status := Some in_review, u_completed_at := Some (Some now),
                    u_progress := Some 100, u_progress_note := Some (Some summary)\<rparr>)))))"
proof (cases "q_getTask s i")
  case None
  then show ?thesis by (simp add: completeTask_def)
next
  case (Some t)
  then have ti: "task_id t = i" by (simp add: q_getTask_SomeD)
  show ?thesis
  proof (cases "status t = in_progress")
    case False
    then have "snd (completeTask s i summary files now uuid_log db_now) = s"
      using Some by (simp add: completeTask_def)
    then show ?thesis ..
  next
    case True
    let ?s1 = "snd (q_updateTask s i
         (no_updates\<lparr>u_status := Some in_review, u_completed_at := Some (Some now),
            u_progress := Some 100, u_progress_note := Some (Some summary)\<rparr>))"
    let ?all = "q_listTasks ?s1 (Some (group_id t)) None"
    have "tasks (snd (completeTask s i summary files now uuid_log db_now)) =
        tasks (unblock_loop ?all
          (getUnlockedTasks i (build_dependencyMap ?s1 ?all)
             (insert i (set (map task_id
                (filter (\<lambda>t. status t = completed \<or> status t = in_review) ?all))))) ?s1)"
      using Some ti True
      by (simp add: completeTask_def Let_def case_prod_beta split: sum.splits)
    moreover have "set ?all \<subseteq> set (tasks ?s1)" by (rule set_q_listTasks)
    ultimately show ?thesis using Some True by blast
  qed
qed

lemma mergeTask_store:
  "snd (mergeTask git s i strategy now uuid_log db_now) = s \<or>
   (\<exists>t l. q_getTask s i = Some t \<and> status t = in_review \<and>
      snd (mergeTask git s i strategy now uuid_log db_now) = snd (q_addProgressLog s db_now l)) \<or>
   (\<exists>t allGroupTasks ids. q_getTask s i = Some t \<and> status t = in_review \<and>
      set allGroupTasks \<subseteq> set (tasks (snd (q_updateTask s i
         (no_updates\<lparr>u_status := Some completed, u_merged_at := Some (Some now)\<rparr>)))) \<and>
      tasks (snd (mergeTask git s i strategy now uuid_log db_now)) =
        tasks (unblock_loop allGroupTasks ids (snd (q_updateTask s i
                 (no_updates\<lparr>u_status := Some completed, u_merged_at := Some (Some now)\<rparr>)))))"
proof (cases "isOnMainBranch git = Inr True \<and> q_getTask s i \<noteq> None")
  case False
  then have "snd (mergeTask git s i strategy now uuid_log db_now) = s"
    by (auto simp: mergeTask_def split: sum.splits option.splits)
  then show ?thesis ..
next
  case True
  then obtain t where t: "q_getTask s i = Some t" and m: "isOnMainBranch git = Inr True" by auto
  then have ti: "task_id t = i" by (simp add: q_getTask_SomeD)
  let ?st = "case strategy of None \<Rightarrow> squash | Some st \<Rightarrow> st"
  show ?thesis
  proof (cases "status t = in_review \<and> js_truthy_str (branch_name t)")
    case False
    then have "snd (mergeTask git s i strategy now uuid_log db_now) = s"
      using t m by (auto simp: mergeTask_def)
    then show ?thesis ..
  next
    case True
    note ok = True
    show ?thesis
    proof (cases "mergeBranch git (the (branch_name t)) ?st")
      case (Inl e)
      then have "snd (mergeTask git s i strategy now uuid_log db_now) = s"
        using t m ok by (simp add: mergeTask_def Let_def)
      then show ?thesis ..
    next
      case (Inr r)
      obtain good conflicts where r: "r = (good, conflicts)" by (cases r)
      show ?thesis
      proof (cases good)
        case False
        have "\<exists>l. snd (mergeTask git s i strategy now uuid_log db_now) =
            snd (q_addProgressLog s db_now l)"
          using t m ok Inr r False ti by (auto simp: mergeTask_def Let_def case_prod_beta)
        with t ok show ?thesis by blast
      next
        case True
        let ?s1 = "snd (q_updateTask s i
           (no_updates\<lparr>u_status := Some completed, u_merged_at := Some (Some now)\<rparr>))"
        let ?all = "q_listTasks ?s1 (Some (group_id t)) None"
        have "tasks (snd (mergeTask git s i strategy now uuid_log db_now)) =
            tasks (unblock_loop ?all
              (getUnlockedTasks i (build_dependencyMap ?s1 ?all)
                 (set (map task_id (filter (\<lambda>t. status t = completed) ?all)))) ?s1)"
          using t m ok Inr r True ti
          by (simp add: mergeTask_def Let_def case_prod_beta split: sum.splits)
        moreover have "set ?all \<subseteq> set (tasks ?s1)" by (rule set_q_listTasks)
        ultimately show ?thesis using t ok by blast
      qed
    qed
  qed
qed

lemma row_rel_tasks_eq: "tasks s' = tasks s'' \<Longrightarrow> row_rel R s s'' \<Longrightarrow> row_rel R s s'"
  by (simp add: row_rel_def)

lemma startTask_rel:
  assumes d: "distinct (map task_id (tasks s))" and refl: "\<And>x. R x x"
    and r: "\<And>t b w. status t = assigned \<Longrightarrow>
      R t (t\<lparr>status := in_progress, branch_name := Some b, worktree_path := Some w,
              started_at := Some now\<rparr>)"
  shows "row_rel R s (snd (startTask git slugify s i now uuid_log db_now))"
  using startTask_store [of git slugify s i now uuid_log db_now]
proof (elim disjE exE conjE)
  assume "snd (startTask git slugify s i now uuid_log db_now) = s"
  then show ?thesis using refl by (simp add: row_rel_same_tasks)
next
  fix t b w
  assume t: "q_getTask s i = Some t" and p: "status t = assigned"
    and e: "tasks (snd (startTask git slugify s i now uuid_log db_now)) =
        tasks (snd (q_updateTask s i (no_updates\<lparr>u_status := Some in_progress,
                     u_branch_name := Some (Some b), u_worktree_path := Some (Some w),
                     u_started_at := Some (Some now)\<rparr>)))"
  show ?thesis
    by (rule row_rel_tasks_eq [OF e], rule q_updateTask_rel [OF d t _ refl])
      (simp add: started_task_eq r [OF p])
qed

lemma updateProgress_rel:
  assumes d: "distinct (map task_id (tasks s))" and refl: "\<And>x. R x x"
    and r: "\<And>t. q_getTask s i = Some t \<Longrightarrow> R t (t\<lparr>progress := v, progress_note := Some note\<rparr>)"
  shows "row_rel R s (snd (updateProgress git s i v note files uuid_log db_now))"
  using updateProgress_store [of s i git v "note" files uuid_log db_now]
proof (elim disjE exE conjE)
  assume "snd (updateProgress git s i v note files uuid_log db_now) = s"
  then show ?thesis using refl by (simp add: row_rel_same_tasks)
next
  fix t l
  assume t: "q_getTask s i = Some t"
    and e: "snd (updateProgress git s i v note files uuid_log db_now) =
        snd (q_addProgressLog
              (snd (q_updateTask s i (no_updates\<lparr>u_progress := Some v,
                     u_progress_note := Some (Some note)\<rparr>))) db_now l)"
  have "row_rel R s (snd (q_updateTask s i (no_updates\<lparr>u_progress := Some v,
                     u_progress_note := Some (Some note)\<rparr>)))"
    by (rule q_updateTask_rel [OF d t _ refl]) (simp add: progress_task_eq r [OF t])
  then show ?thesis unfolding e by (rule log_rel) (rule refl)
qed

lemma cleanupTask_rel:
  assumes d: "distinct (map task_id (tasks s))" and refl: "\<And>x. R x x"
    and r: "\<And>t. R t (t\<lparr>status := failed\<rparr>)"
  shows "row_rel R s (snd (cleanupTask git s i reason uuid_log db_now))"
  using cleanupTask_store [of s i git reason uuid_log db_now]
proof (elim disjE exE conjE)
  assume "snd (cleanupTask git s i reason uuid_log db_now) = s"
  then show ?thesis using refl by (simp add: row_rel_same_tasks)
next
  fix t l
  assume t: "q_getTask s i = Some t"
    and e: "snd (cleanupTask git s i reason uuid_log db_now) =
        snd (q_addProgressLog
              (snd (q_updateTask s i (no_updates\<lparr>u_status := Some failed\<rparr>))) db_now l)"
  have "row_rel R s (snd (q_updateTask s i (no_updates\<lparr>u_status := Some failed\<rparr>)))"
    by (rule q_updateTask_rel [OF d t _ refl]) (simp add: failed_task_eq r)
  then show ?thesis unfolding e by (rule log_rel) (rule refl)
qed

lemma update_unblock_rel:
  assumes d: "distinct (map task_id (tasks s))" and refl: "\<And>x. R x x"
    and trans: "\<And>x y z. R x y \<Longrightarrow> R y z \<Longrightarrow> R x z"
    and t: "q_getTask s i = Some t" and r1: "R t (apply_updates u t)"
    and r2: "\<And>x. status x = blocked \<Longrightarrow> R x (x\<lparr>status := pending\<rparr>)"
    and sub: "set allGroupTasks \<subseteq> set (tasks (snd (q_updateTask s i u)))"
  shows "row_rel R s (unblock_loop allGroupTasks ids (snd (q_updateTask s i u)))"
proof -
  have 1: "row_rel R s (snd (q_updateTask s i u))"
    by (rule q_updateTask_rel [OF d t r1 refl])
  from row_rel_ids [OF 1] d have d1: "distinct (map task_id (tasks (snd (q_updateTask s i u))))"
    by simp
  have 2: "row_rel R (snd (q_updateTask s i u))
      (unblock_loop allGroupTasks ids (snd (q_updateTask s i u)))"
    by (rule unblock_loop_rel [where R = R, OF d1 sub r2 refl])
  show ?thesis by (rule row_rel_trans [OF 1 2 trans])
qed

lemma completeTask_rel:
  assumes d: "distinct (map task_id (tasks s))" and refl: "\<And>x. R x x"
    and trans: "\<And>x y z. R x y \<Longrightarrow> R y z \<Longrightarrow> R x z"
    and r1: "\<And>t. status t = in_progress \<Longrightarrow>
      R t (t\<lparr>status := in_review, progress := 100, progress_note := Some summary,
              completed_at := Some now\<rparr>)"
    and r2: "\<And>x. status x = blocked \<Longrightarrow> R x (x\<lparr>status := pending\<rparr>)"
  shows "row_rel R s (snd (completeTask s i summary files now uuid_log db_now))"
  using completeTask_store [of s i summary files now uuid_log db_now]
proof (elim disjE exE conjE)
  assume "snd (completeTask s i summary files now uuid_log db_now) = s"
  then show ?thesis using refl by (simp add: row_rel_same_tasks)
next
  fix t allGroupTasks ids
  assume t: "q_getTask s i = Some t" and p: "status t = in_progress"
    and sub: "set allGroupTasks \<subseteq> set (tasks (snd (q_updateTask s i
         (no_updates\<lparr>u_status := Some in_review, u_completed_at := Some (Some now),
            u_progress := Some 100, u_progress_note := Some (Some summary)\<rparr>))))"
    and e: "tasks (snd (completeTask s i summary files now uuid_log db_now)) =
        tasks (unblock_loop allGroupTasks ids (snd (q_updateTask s i
                 (no_updates\<lparr>u_status := Some in_review, u_completed_at := Some (Some now),
                    u_progress := Some 100, u_progress_note := Some (Some summary)\<rparr>))))"
  have r: "R t (apply_updates (no_updates\<lparr>u_status := Some in_review,
      u_completed_at := Some (Some now), u_progress := Some 100,
      u_progress_note := Some (Some summary)\<rparr>) t)"
    by (simp add: completed_task_eq r1 [OF p])
  show ?thesis
    by (rule row_rel_tasks_eq [OF e]) (rule update_unblock_rel [OF d refl trans t r r2 sub])
qed

lemma mergeTask_rel:
  assumes d: "distinct (map task_id (tasks s))" and refl: "\<And>x. R x x"
    and trans: "\<And>x y z. R x y \<Longrightarrow> R y z \<Longrightarrow> R x z"
    and r1: "\<And>t. status t = in_review \<Longrightarrow> R t (t\<lparr>status := completed, merged_at := Some now\<rparr>)"
    and r2: "\<And>x. status x = blocked \<Longrightarrow> R x (x\<lparr>status := pending\<rparr>)"
  shows "row_rel R s (snd (mergeTask git s i strategy now uuid_log db_now))"
  using mergeTask_store [of git s i strategy now uuid_log db_now]
proof (elim disjE exE conjE)
  assume "snd (mergeTask git s i strategy now uuid_log db_now) = s"
  then show ?thesis using refl by (simp add: row_rel_same_tasks)
next
  fix t l
  assume "snd (mergeTask git s i strategy now uuid_log db_now) = snd (q_addProgressLog s db_now l)"
  then show ?thesis using refl by (simp add: row_rel_same_tasks)
next
  fix t allGroupTasks ids
  assume t: "q_getTask s i = Some t" and p: "status t = in_review"
    and sub: "set allGroupTasks \<subseteq> set (tasks (snd (q_updateTask s i
         (no_updates\<lparr>u_status := Some completed, u_merged_at := Some (Some now)\<rparr>))))"
    and e: "tasks (snd (mergeTask git s i strategy now uuid_log db_now)) =
        tasks (unblock_loop allGroupTasks ids (snd (q_updateTask s i
                 (no_updates\<lparr>u_status := Some completed, u_merged_at := Some (Some now)\<rparr>))))"
  have r: "R t (apply_updates (no_updates\<lparr>u_status := Some completed,
      u_merged_at := Some (Some now)\<rparr>) t)"
    by (simp add: merged_task_eq r1 [OF p])
  show ?thesis
    by (rule row_rel_tasks_eq [OF e]) (rule update_unblock_rel [OF d refl trans t r r2 sub])
qed

section \<open>Status changes of the operations\<close>

lemma run_call_rel:
  assumes d: "distinct (map task_id (tasks s))" and refl: "\<And>x. R x x"
    and trans: "\<And>x y z. R x y \<Longrightarrow> R y z \<Longrightarrow> R x z"
    and r_claim: "\<And>t a. status t = pending \<Longrightarrow> R t (t\<lparr>status := assigned, assigned_to := Some a\<rparr>)"
    and r_start: "\<And>t b w n. status t = assigned \<Longrightarrow>
      R t (t\<lparr>status := in_progress, branch_name := Some b, worktree_path := Some w,
              started_at := Some n\<rparr>)"
    and r_progress: "\<And>git i v n f u db t. c = UpdateProgress git i v n f u db \<Longrightarrow>
      q_getTask s i = Some t \<Longrightarrow> R t (t\<lparr>progress := v, progress_note := Some n\<rparr>)"
    and r_complete: "\<And>t sm n. status t = in_progress \<Longrightarrow>
      R t (t\<lparr>status := in_review, progress := 100, progress_note := Some sm,
              completed_at := Some n\<rparr>)"
    and r_merge: "\<And>t n. status t = in_review \<Longrightarrow> R t (t\<lparr>status := completed, merged_at := Some n\<rparr>)"
    and r_unblock: "\<And>x. status x = blocked \<Longrightarrow> R x (x\<lparr>status := pending\<rparr>)"
    and r_cleanup: "\<And>t. is_cleanup c \<Longrightarrow> R t (t\<lparr>status := failed\<rparr>)"
    and c: "lifecycle_call c"
  shows "row_rel R s (run_call c s)"
proof (cases c)
  case (ClaimTask i agent uuid_agent uuid_log db_now)
  show ?thesis unfolding ClaimTask run_call.simps
    by (rule claimTask_rel [where R = R, OF d refl r_claim])
next
  case (StartTask git slugify i now uuid_log db_now)
  show ?thesis unfolding StartTask run_call.simps
    by (rule startTask_rel [where R = R, OF d refl r_start])
next
  case (UpdateProgress git i v n files uuid_log db_now)
  show ?thesis unfolding UpdateProgress run_call.simps
    by (rule updateProgress_rel [where R = R, OF d refl r_progress [OF UpdateProgress]])
next
  case (CompleteTask i summary files now uuid_log db_now)
  show ?thesis unfolding CompleteTask run_call.simps
    by (rule completeTask_rel [where R = R, OF d refl trans r_complete r_unblock])
next
  case (MergeTask git i strategy now uuid_log db_now)
  show ?thesis unfolding MergeTask run_call.simps
    by (rule mergeTask_rel [where R = R, OF d refl trans r_merge r_unblock])
next
  case (CleanupTask git i reason uuid_log db_now)
  show ?thesis unfolding CleanupTask run_call.simps
    by (rule cleanupTask_rel [where R = R, OF d refl r_cleanup]) (simp add: CleanupTask)
qed (use c in simp_all)

lemma run_call_distinct:
  assumes d: "distinct (map task_id (tasks s))" and c: "lifecycle_call c"
  shows "distinct (map task_id (tasks (run_call c s)))"
proof -
  have "row_rel (\<lambda>x y. True) s (run_call c s)"
    by (rule run_call_rel [OF d _ _ _ _ _ _ _ _ _ c]) simp_all
  from row_rel_ids [OF this] d show ?thesis by simp
qed

lemma status_of_rel:
  assumes "row_rel R s s'" and "status_of s i = Some st"
  shows "\<exists>x y. q_getTask s i = Some x \<and> status x = st \<and> q_getTask s' i = Some y \<and> R x y"
proof -
  from assms(2) obtain x where x: "q_getTask s i = Some x" "status x = st"
    by (auto simp: status_of_def)
  from row_rel_getTask [OF assms(1) x(1)] x show ?thesis by blast
qed

lemma failed_stays:
  assumes d: "distinct (map task_id (tasks s))" and c: "lifecycle_call c"
    and f: "status_of s i = Some failed"
  shows "status_of (run_call c s) i = Some failed"
proof -
  have "row_rel (\<lambda>x y. status x = failed \<longrightarrow> status y = failed) s (run_call c s)"
    by (rule run_call_rel [OF d _ _ _ _ _ _ _ _ _ c]) simp_all
  from status_of_rel [OF this f] show ?thesis by (auto simp: status_of_def)
qed

lemma completed_stays:
  assumes d: "distinct (map task_id (tasks s))" and c: "lifecycle_call c"
    and n: "\<not> is_cleanup c" and f: "status_of s i = Some completed"
  shows "status_of (run_call c s) i = Some completed"
proof -
  have "row_rel (\<lambda>x y. status x = completed \<longrightarrow> status y = completed) s (run_call c s)"
    by (rule run_call_rel [OF d _ _ _ _ _ _ _ _ _ c]) (simp_all add: n)
  from status_of_rel [OF this f] show ?thesis by (auto simp: status_of_def)
qed

lemma cleanup_sets_failed:
  assumes "q_getTask s i \<noteq> None"
  shows "status_of (snd (cleanupTask git s i reason uuid_log db_now)) i = Some failed"
proof -
  from assms obtain t where t: "q_getTask s i = Some t" by auto
  from cleanupTask_store [of s i git reason uuid_log db_now] t
  obtain l where e: "snd (cleanupTask git s i reason uuid_log db_now) =
        snd (q_addProgressLog
              (snd (q_updateTask s i (no_updates\<lparr>u_status := Some failed\<rparr>))) db_now l)"
    by auto
  from t have ti: "task_id t = i" by (simp add: q_getTask_SomeD)
  have "q_getTask (snd (cleanupTask git s i reason uuid_log db_now)) i =
      q_getTask (snd (q_updateTask s i (no_updates\<lparr>u_status := Some failed\<rparr>))) i"
    unfolding e by (simp add: q_getTask_def)
  then show ?thesis unfolding status_of_def
    by (simp add: q_getTask_after_update t ti failed_task_eq)
qed

section \<open>The invariant on progress\<close>

lemma rel_good:
  assumes "row_rel (\<lambda>x y. inv_row x \<longrightarrow> inv_row y) s s'" and "good s"
  shows "good s'"
proof -
  from row_rel_ids [OF assms(1)] assms(2) have d: "distinct (map task_id (tasks s'))"
    by (simp add: good_def)
  have "\<forall>y \<in> set (tasks s'). inv_row y"
  proof
    fix y assume "y \<in> set (tasks s')"
    then obtain k where k: "k < length (tasks s')" "y = tasks s' ! k"
      by (auto simp: in_set_conv_nth)
    from assms(1) have l: "list_all2 (\<lambda>x y. task_id y = task_id x \<and> (inv_row x \<longrightarrow> inv_row y))
        (tasks s) (tasks s')"
      by (simp add: row_rel_def)
    from list_all2_nthD2 [OF l k(1)] have "inv_row (tasks s ! k) \<longrightarrow> inv_row y"
      and "k < length (tasks s)"
      using k(2) list_all2_lengthD [OF l] k(1) by auto
    moreover from assms(2) \<open>k < length (tasks s)\<close> have "inv_row (tasks s ! k)"
      by (simp add: good_def progress_invariant_def)
    ultimately show "inv_row y" by simp
  qed
  with d show ?thesis by (simp add: good_def progress_invariant_def)
qed

lemma q_updateTask_rel_all:
  assumes "\<And>x. R x x" and "\<And>x. task_id x = i \<Longrightarrow> R x (apply_updates u x)"
  shows "row_rel R s (snd (q_updateTask s i u))"
proof (rule row_rel_map [where f = "\<lambda>x. if task_id x = i then apply_updates u x else x"])
  fix x assume "x \<in> set (tasks s)"
  show "task_id (if task_id x = i then apply_updates u x else x) = task_id x \<and>
        R x (if task_id x = i then apply_updates u x else x)"
    using assms by simp
next
  show "tasks (snd (q_updateTask s i u)) =
      map (\<lambda>x. if task_id x = i then apply_updates u x else x) (tasks s)"
    by (rule q_updateTask_tasks)
qed

lemma blocked_task_eq:
  "apply_updates (no_updates\<lparr>u_status := Some blocked\<rparr>) t = t\<lparr>status := blocked\<rparr>"
  by (simp add: apply_updates_def no_updates_def set_field_def)

lemma block_good:
  assumes "good s"
  shows "good (snd (q_updateTask s i (no_updates\<lparr>u_status := Some blocked\<rparr>)))"
  by (rule rel_good [OF q_updateTask_rel_all assms]) (simp_all add: blocked_task_eq inv_row_def)

lemma q_createGroup_tasks [simp]: "tasks (snd (q_createGroup s db_now g)) = tasks s"
  by (simp add: q_createGroup_def Let_def)

lemma q_addDependency_tasks [simp]: "tasks (snd (q_addDependency s a b)) = tasks s"
  by (simp add: q_addDependency_def)

lemma q_addFileOwnership_tasks [simp]: "tasks (snd (q_addFileOwnership s fo)) = tasks s"
  by (simp add: q_addFileOwnership_def)

lemma q_getTask_None_iff: "q_getTask s i = None \<longleftrightarrow> i \<notin> task_id ` set (tasks s)"
  by (auto simp: q_getTask_def find_None_iff)

lemma q_createTask_good:
  assumes "good s" and "status t = pending"
  shows "good (snd (q_createTask s db_now t))"
  using assms
  by (auto simp: q_createTask_def Let_def good_def progress_invariant_def inv_row_def
      q_getTask_None_iff)

lemma create_loop_good:
  "good s \<Longrightarrow> good (snd (create_loop groupId uuid db_now inputs i m created s))"
proof (induction inputs arbitrary: i m created s)
  case Nil
  then show ?case by simp
next
  case (Cons a inputs)
  let ?t = "\<lparr>task_id = uuid (Suc i), group_id = groupId, sequence = int i + 1,
               title = ti_title a, description = ti_description a,
               status = pending,
               priority = (case ti_priority a of None \<Rightarrow> medium | Some p \<Rightarrow> p),
               assigned_to = None, branch_name = None, worktree_path = None, progress = 0,
               progress_note = None, created_at = db_now, started_at = None,
               completed_at = None, merged_at = None\<rparr>"
  have g: "good (snd (q_createTask s db_now ?t))"
    by (rule q_createTask_good [OF Cons.prems]) simp
  obtain r s' where r: "q_createTask s db_now ?t = (r, s')" by (cases "q_createTask s db_now ?t")
  with g have g': "good s'" by simp
  show ?case
  proof (cases r)
    case (Inl e)
    with r g' show ?thesis by (simp add: Let_def)
  next
    case (Inr row)
    with r Cons.IH [OF g'] show ?thesis by (simp add: Let_def)
  qed
qed

lemma dep_loop_tasks [simp]:
  "tasks (snd (dep_loop m taskId n ttl ds deps warnings s)) = tasks s"
proof (induction ds arbitrary: deps warnings s)
  case Nil
  then show ?case by simp
next
  case (Cons d ds)
  show ?case
  proof (cases "js_truthy_str (map_of m d)")
    case False
    then show ?thesis using Cons.IH by simp
  next
    case True
    obtain r s' where r: "q_addDependency s taskId (the (map_of m d)) = (r, s')"
      by (cases "q_addDependency s taskId (the (map_of m d))")
    then have "tasks s' = tasks s" using q_addDependency_tasks [of s taskId "the (map_of m d)"]
      by simp
    with r True Cons.IH show ?thesis by (cases r) (simp_all add: Let_def)
  qed
qed

lemma deps_loop_tasks [simp]:
  "tasks (snd (deps_loop m inputs i dm warnings s)) = tasks s"
proof (induction inputs arbitrary: i dm warnings s)
  case Nil
  then show ?case by simp
next
  case (Cons a inputs)
  let ?c = "dep_loop m (the (map_of m (int i + 1))) (int i + 1) (ti_title a)
              (case ti_depends_on a of None \<Rightarrow> [] | Some ds \<Rightarrow> ds) [] warnings s"
  obtain r s' where r: "?c = (r, s')" by (cases ?c)
  then have "tasks s' = tasks s"
    using dep_loop_tasks [of m "the (map_of m (int i + 1))" "int i + 1" "ti_title a"
        "case ti_depends_on a of None \<Rightarrow> [] | Some ds \<Rightarrow> ds" "[]" warnings s]
    by simp
  with r Cons.IH show ?case by (cases r) (simp_all add: Let_def case_prod_beta)
qed

lemma patterns_loop_tasks [simp]: "tasks (snd (patterns_loop taskId fps s)) = tasks s"
proof (induction fps arbitrary: s)
  case Nil
  then show ?case by simp
next
  case (Cons fp fps)
  let ?c = "q_addFileOwnership s \<lparr>fo_task_id = taskId, file_pattern = fp_pattern fp,
              ownership_type = fp_ownership_type fp\<rparr>"
  obtain r s' where r: "?c = (r, s')" by (cases ?c)
  then have "tasks s' = tasks s"
    using q_addFileOwnership_tasks [of s "\<lparr>fo_task_id = taskId, file_pattern = fp_pattern fp,
              ownership_type = fp_ownership_type fp\<rparr>"]
    by simp
  with r Cons.IH show ?case by (cases r) simp_all
qed

lemma ownership_loop_tasks [simp]: "tasks (snd (ownership_loop m inputs i s)) = tasks s"
proof (induction inputs arbitrary: i s)
  case Nil
  then show ?case by simp
next
  case (Cons a inputs)
  let ?c = "patterns_loop (the (map_of m (int i + 1)))
             (case ti_file_patterns a of None \<Rightarrow> [] | Some fps \<Rightarrow> fps) s"
  obtain r s' where r: "?c = (r, s')" by (cases ?c)
  then have "tasks s' = tasks s"
    using patterns_loop_tasks [of "the (map_of m (int i + 1))"
        "case ti_file_patterns a of None \<Rightarrow> [] | Some fps \<Rightarrow> fps" s]
    by simp
  with r Cons.IH show ?case by (cases r) simp_all
qed

lemma status_loop_good:
  "good s \<Longrightarrow> good (snd (status_loop m dm created i out s))"
proof (induction created arbitrary: i out s)
  case Nil
  then show ?case by simp
next
  case (Cons a created)
  let ?id = "the (map_of m (int i + 1))"
  let ?s' = "if (case map_of dm ?id of None \<Rightarrow> [] | Some ds \<Rightarrow> ds) \<noteq> []
             then snd (q_updateTask s ?id (no_updates\<lparr>u_status := Some blocked\<rparr>)) else s"
  have "good ?s'" using Cons.prems by (simp add: block_good)
  from Cons.IH [OF this] show ?case by (simp add: Let_def)
qed

lemma good_tasks_eq: "tasks s' = tasks s \<Longrightarrow> good s \<Longrightarrow> good s'"
  by (simp add: good_def progress_invariant_def)

lemma createTasks_good:
  assumes "good s"
  shows "good (snd (createTasks s input uuid db_now))"
proof -
  let ?g = "\<lparr>tg_id = uuid 0, tg_title = ci_group_title input,
               tg_description = ci_group_description input, tg_status = ''active'',
               tg_created_at = db_now\<rparr>"
  obtain r0 s0 where r0: "q_createGroup s db_now ?g = (r0, s0)" by (cases "q_createGroup s db_now ?g")
  then have "tasks s0 = tasks s" using q_createGroup_tasks [of s db_now ?g] by simp
  then have g0: "good s0" using assms by (rule good_tasks_eq)
  show ?thesis
  proof (cases r0)
    case (Inl e)
    with r0 g0 show ?thesis by (simp add: createTasks_def Let_def)
  next
    case (Inr grp)
    note c0 = Inr
    let ?c1 = "create_loop (uuid 0) uuid db_now (ci_tasks input) 0 [] [] s0"
    obtain r1 s1 where r1: "?c1 = (r1, s1)" by (cases ?c1)
    then have g1: "good s1"
      using create_loop_good [OF g0, of "uuid 0" uuid db_now "ci_tasks input" 0 "[]" "[]"] by simp
    show ?thesis
    proof (cases r1)
      case (Inl e)
      with r0 c0 r1 g1 show ?thesis by (simp add: createTasks_def Let_def)
    next
      case (Inr p1)
      obtain m created where p1: "p1 = (m, created)" by (cases p1)
      note c1 = Inr p1
      let ?c2 = "deps_loop m (ci_tasks input) 0 [] [] s1"
      obtain r2 s2 where r2: "?c2 = (r2, s2)" by (cases ?c2)
      then have "tasks s2 = tasks s1"
        using deps_loop_tasks [of m "ci_tasks input" 0 "[]" "[]" s1] by simp
      then have g2: "good s2" using g1 by (rule good_tasks_eq)
      show ?thesis
      proof (cases r2)
        case (Inl e)
        with r0 c0 r1 c1 r2 g2 show ?thesis by (simp add: createTasks_def Let_def)
      next
        case (Inr p2)
        obtain dm w1 where p2: "p2 = (dm, w1)" by (cases p2)
        note c2 = Inr p2
        let ?c3 = "ownership_loop m (ci_tasks input) 0 s2"
        obtain r3 s3 where r3: "?c3 = (r3, s3)" by (cases ?c3)
        then have "tasks s3 = tasks s2"
          using ownership_loop_tasks [of m "ci_tasks input" 0 s2] by simp
        then have g3: "good s3" using g2 by (rule good_tasks_eq)
        show ?thesis
        proof (cases r3)
          case (Inl e)
          with r0 c0 r1 c1 r2 c2 r3 g3 show ?thesis by (simp add: createTasks_def Let_def)
        next
          case (Inr u)
          note c3 = Inr
          show ?thesis
          proof (cases "validateNoCycles dm")
            case None
            with r0 c0 r1 c1 r2 c2 r3 c3 g3 show ?thesis by (simp add: createTasks_def Let_def)
          next
            case (Some v)
            have "good (snd (status_loop m dm created 0 [] s3))"
              by (rule status_loop_good [OF g3])
            with r0 c0 r1 c1 r2 c2 r3 c3 Some show ?thesis
              by (simp add: createTasks_def Let_def case_prod_beta)
          qed
        qed
      qed
    qed
  qed
qed

lemma run_call_good:
  assumes g: "good s" and p: "progress_guard c s"
  shows "good (run_call c s)"
proof (cases "lifecycle_call c")
  case True
  from g have d: "distinct (map task_id (tasks s))" by (simp add: good_def)
  have "row_rel (\<lambda>x y. inv_row x \<longrightarrow> inv_row y) s (run_call c s)"
  proof (rule run_call_rel [OF d _ _ _ _ _ _ _ _ _ True])
    fix git i v n f u db t
    assume c: "c = UpdateProgress git i v n f u db" and t: "q_getTask s i = Some t"
    with p have "v = 100 \<or> (status t \<noteq> in_review \<and> status t \<noteq> completed)" by simp
    then show "inv_row t \<longrightarrow> inv_row (t\<lparr>progress := v, progress_note := Some n\<rparr>)"
      by (auto simp: inv_row_def)
  qed (simp_all add: inv_row_def)
  then show ?thesis using g by (rule rel_good)
next
  case False
  then show ?thesis using g by (cases c) (simp_all add: createTasks_good)
qed

lemma run_calls_good:
  "good s \<Longrightarrow> guarded_calls cs s \<Longrightarrow> good (run_calls cs s)"
proof (induction cs arbitrary: s)
  case Nil
  then show ?case by simp
next
  case (Cons c cs)
  from Cons.prems have "good (run_call c s)" and "guarded_calls cs (run_call c s)"
    by (simp_all add: run_call_good)
  then show ?case using Cons.IH by simp
qed

lemma good_empty: "good empty_store"
  by (simp add: good_def progress_invariant_def empty_store_def)

section \<open>The invariant on progress and the terminal statuses on runs\<close>

lemma merged_calls_completed:
  "status_of (run_calls merged_calls empty_store) ''id1'' = Some completed"
  by code_simp

lemma abandoned_calls_failed:
  "status_of (run_calls abandoned_calls empty_store) ''id1'' = Some failed"
  by code_simp

lemma abandoned_calls_distinct:
  "distinct (map task_id (tasks (run_calls abandoned_calls empty_store)))"
  by code_simp

lemma merged_calls_distinct:
  "distinct (map task_id (tasks (run_calls merged_calls empty_store)))"
  by code_simp

text \<open>Claim C2, as stated: in every state reachable by any sequence of service operations,
  every task whose status is \<open>in_review\<close> or \<open>completed\<close> has progress 100. It fails:
  \<open>updateProgress\<close> has no status check, so after create, claim, start and complete, an
  \<open>update_progress\<close> with the value 50 leaves the task \<open>in_review\<close> with progress 50.\<close>

theorem progress_invariant_violated:
  "map (\<lambda>t. (task_id t, status t, progress t))
     (tasks (run_calls progress_after_review_calls empty_store)) = [(''id1'', in_review, 50)] \<and>
   \<not> progress_invariant (run_calls progress_after_review_calls empty_store)"
proof -
  have m: "map (\<lambda>t. (task_id t, status t, progress t))
     (tasks (run_calls progress_after_review_calls empty_store)) = [(''id1'', in_review, 50)]"
    by code_simp
  then obtain t where "tasks (run_calls progress_after_review_calls empty_store) = [t]"
    and "status t = in_review" and "progress t = 50"
    by auto
  then have "\<not> progress_invariant (run_calls progress_after_review_calls empty_store)"
    by (simp add: progress_invariant_def inv_row_def)
  with m show ?thesis by simp
qed

text \<open>Claim C2, amended: in every state reached from the empty store by a sequence of service
  operations in which \<open>update_progress\<close> is applied to a task in status \<open>in_review\<close> or
  \<open>completed\<close> only with the value 100, every task whose status is \<open>in_review\<close> or
  \<open>completed\<close> has progress 100.\<close>

theorem progress_invariant_guarded:
  assumes "guarded_calls cs empty_store"
  shows "progress_invariant (run_calls cs empty_store)"
  using run_calls_good [OF good_empty assms] by (simp add: good_def)

theorem progress_invariant_guarded_witness:
  "guarded_calls guarded_example_calls empty_store \<and>
   progress_invariant (run_calls guarded_example_calls empty_store) \<and>
   map (\<lambda>t. (task_id t, status t, progress t))
     (tasks (run_calls guarded_example_calls empty_store)) = [(''id1'', completed, 100)]"
proof -
  have g: "guarded_calls guarded_example_calls empty_store" by code_simp
  have m: "map (\<lambda>t. (task_id t, status t, progress t))
     (tasks (run_calls guarded_example_calls empty_store)) = [(''id1'', completed, 100)]"
    by code_simp
  from progress_invariant_guarded [OF g] g m show ?thesis by simp
qed

text \<open>Claim C3, as stated: \<open>completed\<close> and \<open>failed\<close> are terminal under \<open>claim_task\<close>,
  \<open>start_task\<close>, \<open>update_progress\<close>, \<open>complete_task\<close>, \<open>merge_task\<close> and \<open>cleanup_task\<close>.
  It fails for \<open>completed\<close>: \<open>cleanupTask\<close> has no status check, so it moves a task that
  was created, claimed, started, completed and merged from \<open>completed\<close> to \<open>failed\<close>.\<close>

theorem cleanupTask_overrides_completed:
  "status_of (run_calls merged_calls empty_store) ''id1'' = Some completed \<and>
   lifecycle_call (CleanupTask test_git ''id1'' None ''log5'' ''t5'') \<and>
   status_of (run_call (CleanupTask test_git ''id1'' None ''log5'' ''t5'')
     (run_calls merged_calls empty_store)) ''id1'' = Some failed"
  by code_simp

text \<open>Claim C3, amended: in a store whose task ids are distinct (the primary key), for each of
  the six operations, a task whose status is \<open>failed\<close> keeps that status; a task whose
  status is \<open>completed\<close> keeps it under every operation other than \<open>cleanup_task\<close>; and
  \<open>cleanup_task\<close> on a \<open>completed\<close> task sets its status to \<open>failed\<close>.\<close>

theorem terminal_statuses:
  assumes "distinct (map task_id (tasks s))" and "lifecycle_call c"
  shows "(status_of s i = Some failed \<longrightarrow> status_of (run_call c s) i = Some failed) \<and>
         (status_of s i = Some completed \<longrightarrow> \<not> is_cleanup c \<longrightarrow>
            status_of (run_call c s) i = Some completed) \<and>
         (status_of s i = Some completed \<longrightarrow>
            status_of (run_call (CleanupTask git i reason uuid_log db_now) s) i = Some failed)"
proof (intro conjI impI)
  assume "status_of s i = Some failed"
  then show "status_of (run_call c s) i = Some failed"
    by (rule failed_stays [OF assms])
next
  assume "status_of s i = Some completed" and "\<not> is_cleanup c"
  then show "status_of (run_call c s) i = Some completed"
    by (rule completed_stays [OF assms, rotated])
next
  assume "status_of s i = Some completed"
  then have "q_getTask s i \<noteq> None" by (auto simp: status_of_def)
  then show "status_of (run_call (CleanupTask git i reason uuid_log db_now) s) i = Some failed"
    by (simp add: cleanup_sets_failed)
qed

theorem terminal_statuses_witness:
  "distinct (map task_id (tasks (run_calls merged_calls empty_store))) \<and>
   lifecycle_call (UpdateProgress test_git ''id1'' 10 ''more'' None ''log5'' ''t5'') \<and>
   status_of (run_calls merged_calls empty_store) ''id1'' = Some completed \<and>
   status_of (run_call (UpdateProgress test_git ''id1'' 10 ''more'' None ''log5'' ''t5'')
     (run_calls merged_calls empty_store)) ''id1'' = Some completed \<and>
   status_of (run_call (CleanupTask test_git ''id1'' (Some ''abandon'') ''log6'' ''t6'')
     (run_calls merged_calls empty_store)) ''id1'' = Some failed \<and>
   distinct (map task_id (tasks (run_calls abandoned_calls empty_store))) \<and>
   lifecycle_call (ClaimTask ''id1'' None ''u2'' ''log6'' ''t6'') \<and>
   status_of (run_calls abandoned_calls empty_store) ''id1'' = Some failed \<and>
   status_of (run_call (ClaimTask ''id1'' None ''u2'' ''log6'' ''t6'')
     (run_calls abandoned_calls empty_store)) ''id1'' = Some failed"
proof -
  have l: "lifecycle_call (UpdateProgress test_git ''id1'' 10 ''more'' None ''log5'' ''t5'')"
    by simp
  have l': "lifecycle_call (ClaimTask ''id1'' None ''u2'' ''log6'' ''t6'')"
    by simp
  from terminal_statuses [OF merged_calls_distinct l, of "''id1''" test_git "Some ''abandon''"
      "''log6''" "''t6''"] merged_calls_completed
  have 1: "status_of (run_call (UpdateProgress test_git ''id1'' 10 ''more'' None ''log5'' ''t5'')
       (run_calls merged_calls empty_store)) ''id1'' = Some completed"
    and 2: "status_of (run_call (CleanupTask test_git ''id1'' (Some ''abandon'') ''log6'' ''t6'')
       (run_calls merged_calls empty_store)) ''id1'' = Some failed"
    by simp_all
  from terminal_statuses [OF abandoned_calls_distinct l', of "''id1''"] abandoned_calls_failed
  have 3: "status_of (run_call (ClaimTask ''id1'' None ''u2'' ''log6'' ''t6'')
     (run_calls abandoned_calls empty_store)) ''id1'' = Some failed"
    by simp
  from 1 2 3 l l' merged_calls_distinct merged_calls_completed abandoned_calls_distinct
    abandoned_calls_failed
  show ?thesis by (intro conjI)
qed

section \<open>Properties of complete_task\<close>

lemma fold_update_map_of:
  "map_of (fold (\<lambda>t m. AList.update (task_id t) (f (task_id t)) m) ts m0) k =
     (if k \<in> task_id ` set ts then Some (f k) else map_of m0 k)"
  by (induction ts arbitrary: m0) (auto simp: update_conv')

lemma fold_update_distinct:
  "distinct (map fst m0) \<Longrightarrow>
   distinct (map fst (fold (\<lambda>t m. AList.update (task_id t) (f (task_id t)) m) ts m0))"
  by (induction ts arbitrary: m0) (auto simp: distinct_update)

lemma map_of_build_dependencyMap:
  "map_of (build_dependencyMap s ts) k =
     (if k \<in> task_id ` set ts then Some (map task_id (q_getDependencies s k)) else None)"
  unfolding build_dependencyMap_def
  using fold_update_map_of [of "\<lambda>k. map task_id (q_getDependencies s k)" ts "[]" k] by simp

lemma distinct_build_dependencyMap: "distinct (map fst (build_dependencyMap s ts))"
  unfolding build_dependencyMap_def
  using fold_update_distinct [of "[]" "\<lambda>k. map task_id (q_getDependencies s k)" ts] by simp

lemma set_getUnlockedTasks:
  assumes "distinct (map fst m)"
  shows "set (getUnlockedTasks c m S) =
     {k. \<exists>ds. map_of m k = Some ds \<and> k \<notin> insert c S \<and> c \<in> set ds \<and> set ds \<subseteq> insert c S}"
  unfolding getUnlockedTasks_filter using assms by (auto simp: image_iff)

lemma set_deps_ids:
  "set (map task_id (q_getDependencies s k)) = prerequisite_ids s k"
proof (rule set_eqI)
  fix j
  show "j \<in> set (map task_id (q_getDependencies s k)) \<longleftrightarrow> j \<in> prerequisite_ids s k"
  proof
    assume "j \<in> set (map task_id (q_getDependencies s k))"
    then obtain x d where "x \<in> set (tasks s)" "d \<in> set (task_dependencies s)" "fst d = k"
      "task_id x = snd d" "j = task_id x"
      by (auto simp: set_q_getDependencies)
    then show "j \<in> prerequisite_ids s k" by (force simp: prerequisite_ids_def)
  next
    assume "j \<in> prerequisite_ids s k"
    then obtain x d where "x \<in> set (tasks s)" "d \<in> set (task_dependencies s)" "fst d = k"
      "task_id x = snd d" "j = snd d"
      by (auto simp: prerequisite_ids_def)
    then have "x \<in> set (q_getDependencies s k)" and "j = task_id x"
      by (auto simp: set_q_getDependencies)
    then show "j \<in> set (map task_id (q_getDependencies s k))" by simp
  qed
qed

lemma update_ids: "task_id ` set (tasks (snd (q_updateTask s i u))) = task_id ` set (tasks s)"
proof -
  have "map task_id (tasks (snd (q_updateTask s i u))) = map task_id (tasks s)"
    unfolding q_updateTask_tasks map_map by (rule map_cong) simp_all
  then have "set (map task_id (tasks (snd (q_updateTask s i u)))) = set (map task_id (tasks s))"
    by (rule arg_cong)
  then show ?thesis by (simp only: set_map)
qed

lemma prerequisite_ids_update:
  "prerequisite_ids (snd (q_updateTask s i u)) k = prerequisite_ids s k"
  by (simp add: prerequisite_ids_def q_updateTask_other_fields update_ids)

lemma q_addProgressLog_Inr:
  assumes "\<forall>r \<in> set (progress_logs s). row_id r \<noteq> li_id l" and "q_getTask s (li_task_id l) \<noteq> None"
  shows "fst (q_addProgressLog s db_now l) \<noteq> Inl e"
  using q_addProgressLog_ok [OF assms, of db_now] by simp

lemma q_getTask_unblock:
  "q_getTask (unblock_loop a ids s) j =
     map_option (unblock_row (blocked_ids a ids)) (q_getTask s j)"
  by (rule q_getTask_map [OF unblock_loop_tasks]) simp

lemma completeTask_tasks:
  assumes t: "q_getTask s i = Some t" and p: "status t = in_progress"
  shows "tasks (snd (completeTask s i summary files now uuid_log db_now)) =
     (let s1 = snd (q_updateTask s i
                 (no_updates\<lparr>u_status := Some in_review, u_completed_at := Some (Some now),
                    u_progress := Some 100, u_progress_note := Some (Some summary)\<rparr>));
          allGroupTasks = q_listTasks s1 (Some (group_id t)) None
      in tasks (unblock_loop allGroupTasks
           (getUnlockedTasks i (build_dependencyMap s1 allGroupTasks)
              (insert i (set (map task_id
                 (filter (\<lambda>t. status t = completed \<or> status t = in_review) allGroupTasks)))))
           s1))"
proof -
  from t have ti: "task_id t = i" by (simp add: q_getTask_SomeD)
  show ?thesis using t p ti
    by (simp add: completeTask_def Let_def case_prod_beta split: sum.splits)
qed

lemma completeTask_returns:
  assumes t: "q_getTask s i = Some t" and p: "status t = in_progress"
    and fresh: "\<forall>r \<in> set (progress_logs s). row_id r \<noteq> uuid_log"
  shows "\<exists>out. fst (completeTask s i summary files now uuid_log db_now) = Inr out \<and>
     co_success out \<and>
     co_task out = Some (t\<lparr>status := in_review, progress := 100, progress_note := Some summary,
                            completed_at := Some now\<rparr>)"
proof -
  from t have ti: "task_id t = i" by (simp add: q_getTask_SomeD)
  have ne: "\<And>X L e. progress_logs X = progress_logs s \<Longrightarrow> li_id L = uuid_log \<Longrightarrow>
      q_getTask X (li_task_id L) \<noteq> None \<Longrightarrow> fst (q_addProgressLog X db_now L) \<noteq> Inl e"
    using fresh by (intro q_addProgressLog_Inr) simp_all
  show ?thesis using t p ti
    by (simp add: completeTask_def Let_def case_prod_beta ne q_updateTask_other_fields
        q_getTask_unblock q_getTask_after_update q_updateTask_fst completed_task_eq
        split: sum.splits)
qed

lemma unblocked_ids:
  fixes now summary :: string
  assumes d: "distinct (map task_id (tasks s))"
    and t: "q_getTask s i = Some t" and g: "group_id t \<noteq> []"
    and x: "x \<in> set (tasks s)"
  defines "s1 \<equiv> snd (q_updateTask s i
                 (no_updates\<lparr>u_status := Some in_review, u_completed_at := Some (Some now),
                    u_progress := Some 100, u_progress_note := Some (Some summary)\<rparr>))"
  defines "allGroupTasks \<equiv> q_listTasks s1 (Some (group_id t)) None"
  defines "ids \<equiv> getUnlockedTasks i (build_dependencyMap s1 allGroupTasks)
              (insert i (set (map task_id
                 (filter (\<lambda>t. status t = completed \<or> status t = in_review) allGroupTasks))))"
  shows "task_id x \<in> blocked_ids allGroupTasks ids \<longleftrightarrow>
     task_id x \<noteq> i \<and> status x = blocked \<and> unlocked_by_completion s t x"
proof -
  let ?u = "no_updates\<lparr>u_status := Some in_review, u_completed_at := Some (Some now),
                    u_progress := Some 100, u_progress_note := Some (Some summary)\<rparr>"
  let ?f = "\<lambda>x. if task_id x = i then apply_updates ?u x else x"
  let ?S = "set (map task_id
     (filter (\<lambda>t. status t = completed \<or> status t = in_review) allGroupTasks))"
  from t have ti: "task_id t = i" and tin: "t \<in> set (tasks s)" by (simp_all add: q_getTask_SomeD)
  have tasks1: "tasks s1 = map ?f (tasks s)" by (simp add: s1_def q_updateTask_tasks)
  have idf: "\<And>y. task_id (?f y) = task_id y" by simp
  have grf: "\<And>y. group_id (?f y) = group_id y" by simp
  have "map task_id (tasks s1) = map task_id (tasks s)"
    unfolding tasks1 map_map by (rule map_cong) simp_all
  with d have d1: "distinct (map task_id (tasks s1))" by simp
  have setall: "set allGroupTasks = {y \<in> set (tasks s1). group_id y = group_id t}"
    unfolding allGroupTasks_def by (rule set_q_listTasks_group [OF g])
  have other: "\<And>y. y \<in> set (tasks s) \<Longrightarrow> task_id y \<noteq> i \<Longrightarrow> y \<in> set (tasks s1)"
  proof -
    fix y assume "y \<in> set (tasks s)" and "task_id y \<noteq> i"
    then have "?f y = y" and "?f y \<in> set (tasks s1)" unfolding tasks1 by auto
    then show "y \<in> set (tasks s1)" by simp
  qed
  have other': "\<And>y. y \<in> set (tasks s1) \<Longrightarrow> task_id y \<noteq> i \<Longrightarrow> y \<in> set (tasks s)"
  proof -
    fix y assume "y \<in> set (tasks s1)" and n: "task_id y \<noteq> i"
    then obtain z where z: "z \<in> set (tasks s)" "y = ?f z" unfolding tasks1 by auto
    with n idf [of z] have "task_id z \<noteq> i" by simp
    with z show "y \<in> set (tasks s)" by simp
  qed
  have S_eq: "insert i ?S = completed_set s t"
  proof (rule set_eqI)
    fix j
    show "j \<in> insert i ?S \<longleftrightarrow> j \<in> completed_set s t"
    proof (cases "j = i")
      case True
      then show ?thesis by (simp add: completed_set_def ti)
    next
      case False
      have "j \<in> ?S \<longleftrightarrow> (\<exists>y \<in> set (tasks s1). group_id y = group_id t \<and>
          (status y = completed \<or> status y = in_review) \<and> task_id y = j)"
        using setall by auto
      also have "\<dots> \<longleftrightarrow> (\<exists>y \<in> set (tasks s). group_id y = group_id t \<and>
          (status y = completed \<or> status y = in_review) \<and> task_id y = j)"
        using other other' False by blast
      also have "\<dots> \<longleftrightarrow> j \<in> completed_set s t"
        using False by (auto simp: completed_set_def ti)
      finally show ?thesis using False by simp
    qed
  qed
  have ic: "insert i (completed_set s t) = completed_set s t"
    by (auto simp: completed_set_def ti)
  have ids_eq: "set ids = {k. k \<in> task_id ` set allGroupTasks \<and> k \<notin> completed_set s t \<and>
      i \<in> prerequisite_ids s k \<and> prerequisite_ids s k \<subseteq> completed_set s t}"
    unfolding ids_def set_getUnlockedTasks [OF distinct_build_dependencyMap]
      map_of_build_dependencyMap S_eq ic
    by (auto simp: set_deps_ids s1_def prerequisite_ids_update simp del: set_map)
  show ?thesis
  proof (cases "task_id x = i")
    case True
    with ti have "task_id x \<in> completed_set s t" by (simp add: completed_set_def)
    then have "task_id x \<notin> set ids" unfolding ids_eq by simp
    with True show ?thesis by (simp add: blocked_ids_def)
  next
    case False
    from other [OF x False] have x1: "x \<in> set (tasks s1)" .
    have sub: "set allGroupTasks \<subseteq> set (tasks s1)" using setall by auto
    have same: "\<And>y. y \<in> set allGroupTasks \<Longrightarrow> task_id y = task_id x \<Longrightarrow> y = x"
    proof -
      fix y assume "y \<in> set allGroupTasks" and e: "task_id y = task_id x"
      with sub have "y \<in> set (tasks s1)" by auto
      with d1 x1 e show "y = x" by (metis distinct_map inj_onD)
    qed
    have in_all: "task_id x \<in> task_id ` set allGroupTasks \<longleftrightarrow> group_id x = group_id t"
    proof
      assume "task_id x \<in> task_id ` set allGroupTasks"
      then obtain y where y: "y \<in> set allGroupTasks" "task_id y = task_id x" by auto
      with same have "y = x" by simp
      with y setall show "group_id x = group_id t" by simp
    next
      assume "group_id x = group_id t"
      with x1 setall have "x \<in> set allGroupTasks" by simp
      then show "task_id x \<in> task_id ` set allGroupTasks" by simp
    qed
    have found: "(\<exists>y. find (\<lambda>t. task_id t = task_id x) allGroupTasks = Some y \<and> status y = blocked)
        \<longleftrightarrow> x \<in> set allGroupTasks \<and> status x = blocked"
    proof
      assume "\<exists>y. find (\<lambda>t. task_id t = task_id x) allGroupTasks = Some y \<and> status y = blocked"
      then obtain y where y: "find (\<lambda>t. task_id t = task_id x) allGroupTasks = Some y"
        and b: "status y = blocked" by blast
      from y have "y \<in> set allGroupTasks" "task_id y = task_id x"
        by (auto simp: find_Some_iff in_set_conv_nth)
      with same b show "x \<in> set allGroupTasks \<and> status x = blocked" by auto
    next
      assume a: "x \<in> set allGroupTasks \<and> status x = blocked"
      then have "find (\<lambda>t. task_id t = task_id x) allGroupTasks \<noteq> None"
        by (auto simp: find_None_iff)
      then obtain y where y: "find (\<lambda>t. task_id t = task_id x) allGroupTasks = Some y" by auto
      then have "y \<in> set allGroupTasks" "task_id y = task_id x"
        by (auto simp: find_Some_iff in_set_conv_nth)
      with same have "y = x" by simp
      with y a show "\<exists>y. find (\<lambda>t. task_id t = task_id x) allGroupTasks = Some y \<and>
          status y = blocked" by simp
    qed
    have "task_id x \<in> blocked_ids allGroupTasks ids \<longleftrightarrow>
        task_id x \<in> set ids \<and> x \<in> set allGroupTasks \<and> status x = blocked"
      unfolding blocked_ids_def using found by simp
    also have "\<dots> \<longleftrightarrow> status x = blocked \<and> unlocked_by_completion s t x"
      unfolding ids_eq unlocked_by_completion_def using in_all setall x1 ti by auto
    finally show ?thesis using False by simp
  qed
qed

text \<open>Claim C4. \<open>complete_task\<close> on a task \<open>t\<close> in status \<open>in_progress\<close> returns successfully,
  sets \<open>status = in_review\<close>, \<open>completed_at\<close>, \<open>progress = 100\<close> (and the note) on \<open>t\<close>, moves
  to \<open>pending\<close> exactly the \<open>blocked\<close> tasks that are unlocked with respect to the completed
  set (the tasks of the group in \<open>completed\<close> or \<open>in_review\<close>, plus \<open>t\<close>), and leaves every
  other task, in particular every task that is not \<open>blocked\<close>, as it was. Task ids are
  distinct (primary key), the group id is a non-empty string and the id of the new log
  entry is fresh (both are uuids).\<close>

theorem completeTask_spec:
  assumes d: "distinct (map task_id (tasks s))"
    and t: "q_getTask s i = Some t" and p: "status t = in_progress"
    and g: "group_id t \<noteq> []"
    and fresh: "\<forall>r \<in> set (progress_logs s). row_id r \<noteq> uuid_log"
  shows "\<exists>out s'. completeTask s i summary files now uuid_log db_now = (Inr out, s') \<and>
     co_success out \<and>
     tasks s' = map (\<lambda>x.
        if task_id x = i
        then x\<lparr>status := in_review, progress := 100, progress_note := Some summary,
               completed_at := Some now\<rparr>
        else if status x = blocked \<and> unlocked_by_completion s t x
        then x\<lparr>status := pending\<rparr>
        else x) (tasks s)"
proof -
  let ?u = "no_updates\<lparr>u_status := Some in_review, u_completed_at := Some (Some now),
                    u_progress := Some 100, u_progress_note := Some (Some summary)\<rparr>"
  let ?s1 = "snd (q_updateTask s i ?u)"
  let ?all = "q_listTasks ?s1 (Some (group_id t)) None"
  let ?ids = "getUnlockedTasks i (build_dependencyMap ?s1 ?all)
              (insert i (set (map task_id
                 (filter (\<lambda>t. status t = completed \<or> status t = in_review) ?all))))"
  let ?B = "blocked_ids ?all ?ids"
  let ?r = "completeTask s i summary files now uuid_log db_now"
  from completeTask_returns [OF t p fresh, of summary files now db_now]
  obtain out where out: "fst ?r = Inr out" "co_success out" by blast
  have "tasks (snd ?r) = map (unblock_row ?B) (tasks ?s1)"
    using completeTask_tasks [OF t p, of summary files now uuid_log db_now]
    by (simp add: Let_def unblock_loop_tasks)
  also have "\<dots> = map (\<lambda>x. unblock_row ?B (if task_id x = i then apply_updates ?u x else x))
      (tasks s)"
    by (simp add: q_updateTask_tasks comp_def)
  also have "\<dots> = map (\<lambda>x.
        if task_id x = i
        then x\<lparr>status := in_review, progress := 100, progress_note := Some summary,
               completed_at := Some now\<rparr>
        else if status x = blocked \<and> unlocked_by_completion s t x
        then x\<lparr>status := pending\<rparr>
        else x) (tasks s)"
  proof (rule map_cong [OF refl])
    fix x assume x: "x \<in> set (tasks s)"
    note c = unblocked_ids [OF d t g x, where now = now and summary = summary]
    show "unblock_row ?B (if task_id x = i then apply_updates ?u x else x) =
        (if task_id x = i
         then x\<lparr>status := in_review, progress := 100, progress_note := Some summary,
               completed_at := Some now\<rparr>
         else if status x = blocked \<and> unlocked_by_completion s t x
         then x\<lparr>status := pending\<rparr>
         else x)"
    proof (cases "task_id x = i")
      case True
      with c have "task_id x \<notin> ?B" by simp
      then have "task_id (apply_updates ?u x) \<notin> ?B" by simp
      then have "unblock_row ?B (apply_updates ?u x) = apply_updates ?u x"
        unfolding unblock_row_def by (rule if_not_P)
      with True show ?thesis by (simp add: completed_task_eq)
    next
      case False
      with c show ?thesis by (simp add: unblock_row_def)
    qed
  qed
  finally have "tasks (snd ?r) = map (\<lambda>x.
        if task_id x = i
        then x\<lparr>status := in_review, progress := 100, progress_note := Some summary,
               completed_at := Some now\<rparr>
        else if status x = blocked \<and> unlocked_by_completion s t x
        then x\<lparr>status := pending\<rparr>
        else x) (tasks s)" .
  with out show ?thesis by (cases ?r) auto
qed

lemma complete_example_unlocked:
  "unlocked_by_completion complete_example (example_task ''a'' 1 in_progress)
     (example_task ''b'' 2 blocked)"
  "\<not> unlocked_by_completion complete_example (example_task ''a'' 1 in_progress)
     (example_task ''c'' 3 blocked)"
  by code_simp+

theorem completeTask_spec_witness:
  "distinct (map task_id (tasks complete_example)) \<and>
   q_getTask complete_example ''a'' = Some (example_task ''a'' 1 in_progress) \<and>
   (\<exists>out s'. completeTask complete_example ''a'' ''done'' [] ''t1'' ''log1'' ''t1'' = (Inr out, s') \<and>
      co_success out \<and>
      map (\<lambda>x. (task_id x, status x, progress x, completed_at x)) (tasks s') =
        [(''a'', in_review, 100, Some ''t1''), (''b'', pending, 0, None),
         (''c'', blocked, 0, None), (''d'', pending, 0, None)])"
proof -
  have d: "distinct (map task_id (tasks complete_example))"
    by (simp add: complete_example_def example_task_def)
  have t: "q_getTask complete_example ''a'' = Some (example_task ''a'' 1 in_progress)"
    by (simp add: q_getTask_def complete_example_def example_task_def)
  have p: "status (example_task ''a'' 1 in_progress) = in_progress"
    by (simp add: example_task_def)
  have g: "group_id (example_task ''a'' 1 in_progress) \<noteq> []"
    by (simp add: example_task_def)
  have fresh: "\<forall>r \<in> set (progress_logs complete_example). row_id r \<noteq> ''log1''"
    by (simp add: complete_example_def)
  have ts: "tasks complete_example =
      [example_task ''a'' 1 in_progress, example_task ''b'' 2 blocked,
       example_task ''c'' 3 blocked, example_task ''d'' 4 pending]"
    by (simp add: complete_example_def)
  from completeTask_spec [OF d t p g fresh, of "''done''" "[]" "''t1''" "''t1''"]
  obtain out s' where
    r: "completeTask complete_example ''a'' ''done'' [] ''t1'' ''log1'' ''t1'' = (Inr out, s')"
    and ok: "co_success out"
    and m: "tasks s' = map (\<lambda>x.
        if task_id x = ''a''
        then x\<lparr>status := in_review, progress := 100, progress_note := Some ''done'',
               completed_at := Some ''t1''\<rparr>
        else if status x = blocked \<and>
                unlocked_by_completion complete_example (example_task ''a'' 1 in_progress) x
        then x\<lparr>status := pending\<rparr>
        else x) (tasks complete_example)"
    by blast
  have e: "map (\<lambda>x. (task_id x, status x, progress x, completed_at x)) (tasks s') =
        [(''a'', in_review, 100, Some ''t1''), (''b'', pending, 0, None),
         (''c'', blocked, 0, None), (''d'', pending, 0, None)]"
    unfolding m ts using complete_example_unlocked by (simp add: example_task_def)
  show ?thesis using d t ok e unfolding r by simp
qed

section \<open>Properties of list_tasks\<close>

lemma canStart_listed:
  assumes "t \<in> set ts"
  shows "canStart (task_id t) (build_dependencyMap s ts) C \<longleftrightarrow>
     prerequisite_ids s (task_id t) \<subseteq> C"
proof -
  from assms have "map_of (build_dependencyMap s ts) (task_id t) =
      Some (map task_id (q_getDependencies s (task_id t)))"
    by (simp add: map_of_build_dependencyMap)
  then have "canStart (task_id t) (build_dependencyMap s ts) C \<longleftrightarrow>
      set (map task_id (q_getDependencies s (task_id t))) \<subseteq> C"
    by (auto simp: canStart_def list_all_iff simp del: set_map)
  then show ?thesis by (simp only: set_deps_ids)
qed

lemma listTasks_outputs:
  "fst (listTasks s g sts) =
     map (\<lambda>t. \<lparr>lt_id = task_id t, lt_sequence = sequence t, lt_title = title t,
                lt_status = status t, lt_progress = progress t,
                lt_progress_note = progress_note t, lt_assigned_to = assigned_to t,
                lt_branch_name = branch_name t, lt_worktree_path = worktree_path t,
                lt_dependencies = dep_summaries (q_getDependencies s (task_id t)),
                lt_can_start = (status t = pending \<and>
                  prerequisite_ids s (task_id t) \<subseteq>
                    set (map task_id (filter (\<lambda>c. status c = completed) (q_listTasks s g sts))))\<rparr>)
       (q_listTasks s g sts)"
  unfolding listTasks_def Let_def fst_conv
  by (rule map_cong [OF refl]) (simp add: canStart_listed del: set_map)

text \<open>Claim C10. \<open>list_tasks\<close> reports \<open>can_start\<close> for a listed task exactly when the task is
  \<open>pending\<close> and all its prerequisites are among the \<open>completed\<close> tasks returned by the same
  filtered query; so \<open>can_start\<close> is false for every task that is not \<open>pending\<close>. In the
  example store, task b is \<open>pending\<close> and its only prerequisite a is \<open>completed\<close>: listed
  with the status filter \<open>[pending]\<close>, b is reported with \<open>can_start = false\<close>; listed with no
  filter, with \<open>can_start = true\<close>.\<close>

theorem listTasks_can_start:
  "map (\<lambda>out. (lt_id out, lt_status out, lt_can_start out)) (fst (listTasks s g sts)) =
     map (\<lambda>t. (task_id t, status t,
            status t = pending \<and>
            prerequisite_ids s (task_id t) \<subseteq>
              set (map task_id (filter (\<lambda>c. status c = completed) (q_listTasks s g sts)))))
       (q_listTasks s g sts) \<and>
   (\<forall>out \<in> set (fst (listTasks s g sts)). lt_status out \<noteq> pending \<longrightarrow> \<not> lt_can_start out) \<and>
   map_option status (q_getTask claim_example ''b'') = Some pending \<and>
   map status (q_getDependencies claim_example ''b'') = [completed] \<and>
   map (\<lambda>out. (lt_id out, lt_can_start out)) (fst (listTasks claim_example None (Some [pending]))) =
     [(''b'', False)] \<and>
   map (\<lambda>out. (lt_id out, lt_can_start out)) (fst (listTasks claim_example None None)) =
     [(''a'', False), (''b'', True), (''c'', False)]"
proof (intro conjI)
  show "map (\<lambda>out. (lt_id out, lt_status out, lt_can_start out)) (fst (listTasks s g sts)) =
     map (\<lambda>t. (task_id t, status t,
            status t = pending \<and>
            prerequisite_ids s (task_id t) \<subseteq>
              set (map task_id (filter (\<lambda>c. status c = completed) (q_listTasks s g sts)))))
       (q_listTasks s g sts)"
    unfolding listTasks_outputs map_map by (rule map_cong [OF refl]) simp
  show "\<forall>out \<in> set (fst (listTasks s g sts)). lt_status out \<noteq> pending \<longrightarrow> \<not> lt_can_start out"
    unfolding listTasks_outputs by auto
  show "map_option status (q_getTask claim_example ''b'') = Some pending"
    by code_simp
  show "map status (q_getDependencies claim_example ''b'') = [completed]"
    by code_simp
  show "map (\<lambda>out. (lt_id out, lt_can_start out))
      (fst (listTasks claim_example None (Some [pending]))) = [(''b'', False)]"
    by code_simp
  show "map (\<lambda>out. (lt_id out, lt_can_start out)) (fst (listTasks claim_example None None)) =
     [(''a'', False), (''b'', True), (''c'', False)]"
    by code_simp
qed

theorem listTasks_can_start_witness:
  "map (\<lambda>out. (lt_id out, lt_status out, lt_can_start out))
     (fst (listTasks claim_example (Some ''g1'') (Some [pending, in_progress]))) =
     [(''b'', pending, False), (''c'', in_progress, False)] \<and>
   (\<exists>out. out \<in> set (fst (listTasks claim_example (Some ''g1'') (Some [pending, in_progress]))) \<and>
      lt_id out = ''c'' \<and> lt_status out \<noteq> pending \<and> \<not> lt_can_start out)"
proof -
  note th = listTasks_can_start [of claim_example "Some ''g1''" "Some [pending, in_progress]"]
  have q: "q_listTasks claim_example (Some ''g1'') (Some [pending, in_progress]) =
      [example_task ''b'' 2 pending, example_task ''c'' 3 in_progress]"
    by code_simp
  have pb: "prerequisite_ids claim_example ''b'' = {''a''}"
    by (simp add: prerequisite_ids_def claim_example_def example_task_def)
  from th have 1: "map (\<lambda>out. (lt_id out, lt_status out, lt_can_start out))
     (fst (listTasks claim_example (Some ''g1'') (Some [pending, in_progress]))) =
     [(''b'', pending, False), (''c'', in_progress, False)]"
    unfolding q by (simp add: example_task_def pb)
  then obtain o1 o2 where l: "fst (listTasks claim_example (Some ''g1'') (Some [pending, in_progress]))
      = [o1, o2]" and c: "lt_id o2 = ''c''" "lt_status o2 = in_progress"
    by auto
  from th l have "lt_status o2 \<noteq> pending \<longrightarrow> \<not> lt_can_start o2" by simp
  with c l have "\<exists>out. out \<in> set (fst (listTasks claim_example (Some ''g1'')
      (Some [pending, in_progress]))) \<and>
      lt_id out = ''c'' \<and> lt_status out \<noteq> pending \<and> \<not> lt_can_start out"
    by auto
  with 1 show ?thesis by simp
qed

section \<open>Properties of the progress log\<close>








end
